theory Spec2Isabelle
  imports Main "HOL-Library.Word"
begin

unbundle bit_operations_syntax

section \<open>Conventions of the embedding\<close>

text \<open>
  The program is the context-mixing bit predictor of
  \<^verbatim>\<open>source/Lib/TLibCommon/TComContextMixer.cpp\<close>.

  \<^item> \<^verbatim>\<open>U8\<close>, \<^verbatim>\<open>U16\<close>, \<^verbatim>\<open>U32\<close> are \<open>8 word\<close>, \<open>16 word\<close>, \<open>32 word\<close>; a
    \<^verbatim>\<open>short\<close> is a \<open>16 word\<close> read with \<open>sint\<close>. A store into one of them is
    \<open>word_of_int\<close>, which truncates as the C++ conversion does.
  \<^item> A C++ \<^verbatim>\<open>int\<close> local is an \<open>int\<close>; \<^verbatim>\<open>>>\<close> on it is \<open>drop_bit\<close> (arithmetic shift),
    \<^verbatim>\<open>&\<close> is \<open>AND\<close> (two's complement).
  \<^item> A \<^verbatim>\<open>newArray<T>\<close> is a function from the index to \<open>T\<close>; \<^verbatim>\<open>calloc\<close> zero-fills it,
    so the initial array is \<open>\<lambda>_. 0\<close>. The source is compiled with \<^verbatim>\<open>NDEBUG\<close>: there are
    no bounds checks and no assertions at run time.
  \<^item> The global bit \<^verbatim>\<open>y\<close> (declared outside this file, set by the coder before
    \<^verbatim>\<open>Predictor::update\<close>) is passed to every function that reads it.
\<close>

type_synonym U8 = "8 word"
type_synonym U16 = "16 word"
type_synonym U32 = "32 word"
type_synonym short = "16 word"

section \<open>Random\<close>

text \<open>The 32-bit pseudo random number generator \<^verbatim>\<open>rnd\<close>, seeded with two constants.\<close>

record Random =
  Random_table :: "nat \<Rightarrow> U32"
  Random_i :: int

definition Random_new :: Random where
  "Random_new =
     \<lparr>Random_table =
        fold (\<lambda>j t. t(j + 2 := t (j + 1) * 11 + t j * 23 div 16)) [0..<62]
             ((\<lambda>_. 0)(0 := 123456789, 1 := 987654321)),
      Random_i = 0\<rparr>"

text \<open>\<^verbatim>\<open>U32 operator()()\<close>: the value returned and the generator after the call.\<close>

definition Random_next :: "Random \<Rightarrow> U32 \<times> Random" where
  "Random_next r =
     (let i = Random_i r + 1;
          v = Random_table r (nat ((i - 24) AND 63)) XOR Random_table r (nat ((i - 55) AND 63))
      in (v, \<lparr>Random_table = (Random_table r)(nat (i AND 63) := v), Random_i = i\<rparr>))"

section \<open>Buf and the global context\<close>

record Buf =
  Buf_b :: "nat \<Rightarrow> U8"
  Buf_n :: int

text \<open>\<^verbatim>\<open>Buf(int i = 16777216) : b(i)\<close>\<close>

definition Buf_new :: "int \<Rightarrow> Buf" where
  "Buf_new i = \<lparr>Buf_b = (\<lambda>_. 0), Buf_n = i\<rparr>"

text \<open>\<^verbatim>\<open>buf[i] = v\<close>: the index wraps, \<^verbatim>\<open>b[i & b.size() - 1]\<close>.\<close>

definition Buf_store :: "int \<Rightarrow> U8 \<Rightarrow> Buf \<Rightarrow> Buf" where
  "Buf_store i v b = b\<lparr>Buf_b := (Buf_b b)(nat (i AND (Buf_n b - 1)) := v)\<rparr>"

text \<open>
  The global context \<^verbatim>\<open>c0\<close>, \<^verbatim>\<open>c4\<close>, \<^verbatim>\<open>bpos\<close>, \<^verbatim>\<open>buf\<close> and \<^verbatim>\<open>pos\<close>, with their
  initial values \<open>1\<close>, \<open>0\<close>, \<open>0\<close>, an empty buffer of \<open>16777216\<close> bytes and \<open>0\<close>.
\<close>

record Globals =
  c0 :: int
  c4 :: U32
  bpos :: int
  pos :: int
  buf :: Buf

definition Globals_new :: Globals where
  "Globals_new = \<lparr>c0 = 1, c4 = 0, bpos = 0, pos = 0, buf = Buf_new 16777216\<rparr>"

text \<open>\<^verbatim>\<open>buf(i)\<close>, the \<open>i\<close>-th byte back from \<^verbatim>\<open>pos\<close>: \<^verbatim>\<open>b[pos - i & b.size() - 1]\<close>.\<close>

definition Buf_back :: "Globals \<Rightarrow> int \<Rightarrow> int" where
  "Buf_back g i = uint (Buf_b (buf g) (nat ((pos g - i) AND (Buf_n (buf g) - 1))))"

section \<open>Ilog\<close>

text \<open>
  \<^verbatim>\<open>Ilog::Ilog()\<close>: \<open>Ilog_x i\<close> is the accumulator \<^verbatim>\<open>x\<close> after the iteration for \<open>i\<close>, and the
  table entry is \<^verbatim>\<open>x >> 24\<close>.
\<close>

fun Ilog_x :: "nat \<Rightarrow> U32" where
  "Ilog_x 0 = 14155776"
| "Ilog_x (Suc n) =
     (if Suc n < 2 then 14155776
      else Ilog_x n + word_of_int (774541002 div (int (Suc n) * 2 - 1)))"

definition Ilog_t :: "nat \<Rightarrow> U8" where
  "Ilog_t i = (if 2 \<le> i \<and> i < 65536 then ucast (drop_bit 24 (Ilog_x i)) else 0)"

text \<open>\<^verbatim>\<open>int operator()(U16 x) const\<close>\<close>

definition ilog :: "int \<Rightarrow> int" where
  "ilog x = uint (Ilog_t (unat (word_of_int x :: U16)))"

section \<open>State table\<close>

text \<open>The 253 initialised rows of \<^verbatim>\<open>State_table[256][4]\<close>; rows 253 to 255 are zero.\<close>

definition State_table :: "int list list" where
  "State_table = [
    [1, 2, 0, 0], [3, 5, 1, 0], [4, 6, 0, 1], [7, 10, 2, 0], [8, 12, 1, 1], [9, 13, 1, 1],
    [11, 14, 0, 2], [15, 19, 3, 0], [16, 23, 2, 1], [17, 24, 2, 1], [18, 25, 2, 1],
    [20, 27, 1, 2], [21, 28, 1, 2], [22, 29, 1, 2], [26, 30, 0, 3], [31, 33, 4, 0],
    [32, 35, 3, 1], [32, 35, 3, 1], [32, 35, 3, 1], [32, 35, 3, 1], [34, 37, 2, 2],
    [34, 37, 2, 2], [34, 37, 2, 2], [34, 37, 2, 2], [34, 37, 2, 2], [34, 37, 2, 2],
    [36, 39, 1, 3], [36, 39, 1, 3], [36, 39, 1, 3], [36, 39, 1, 3], [38, 40, 0, 4],
    [41, 43, 5, 0], [42, 45, 4, 1], [42, 45, 4, 1], [44, 47, 3, 2], [44, 47, 3, 2],
    [46, 49, 2, 3], [46, 49, 2, 3], [48, 51, 1, 4], [48, 51, 1, 4], [50, 52, 0, 5],
    [53, 43, 6, 0], [54, 57, 5, 1], [54, 57, 5, 1], [56, 59, 4, 2], [56, 59, 4, 2],
    [58, 61, 3, 3], [58, 61, 3, 3], [60, 63, 2, 4], [60, 63, 2, 4], [62, 65, 1, 5],
    [62, 65, 1, 5], [50, 66, 0, 6], [67, 55, 7, 0], [68, 57, 6, 1], [68, 57, 6, 1],
    [70, 73, 5, 2], [70, 73, 5, 2], [72, 75, 4, 3], [72, 75, 4, 3], [74, 77, 3, 4],
    [74, 77, 3, 4], [76, 79, 2, 5], [76, 79, 2, 5], [62, 81, 1, 6], [62, 81, 1, 6],
    [64, 82, 0, 7], [83, 69, 8, 0], [84, 71, 7, 1], [84, 71, 7, 1], [86, 73, 6, 2],
    [86, 73, 6, 2], [44, 59, 5, 3], [44, 59, 5, 3], [58, 61, 4, 4], [58, 61, 4, 4],
    [60, 49, 3, 5], [60, 49, 3, 5], [76, 89, 2, 6], [76, 89, 2, 6], [78, 91, 1, 7],
    [78, 91, 1, 7], [80, 92, 0, 8], [93, 69, 9, 0], [94, 87, 8, 1], [94, 87, 8, 1],
    [96, 45, 7, 2], [96, 45, 7, 2], [48, 99, 2, 7], [48, 99, 2, 7], [88, 101, 1, 8],
    [88, 101, 1, 8], [80, 102, 0, 9], [103, 69, 10, 0], [104, 87, 9, 1], [104, 87, 9, 1],
    [106, 57, 8, 2], [106, 57, 8, 2], [62, 109, 2, 8], [62, 109, 2, 8], [88, 111, 1, 9],
    [88, 111, 1, 9], [80, 112, 0, 10], [113, 85, 11, 0], [114, 87, 10, 1], [114, 87, 10, 1],
    [116, 57, 9, 2], [116, 57, 9, 2], [62, 119, 2, 9], [62, 119, 2, 9], [88, 121, 1, 10],
    [88, 121, 1, 10], [90, 122, 0, 11], [123, 85, 12, 0], [124, 97, 11, 1], [124, 97, 11, 1],
    [126, 57, 10, 2], [126, 57, 10, 2], [62, 129, 2, 10], [62, 129, 2, 10], [98, 131, 1, 11],
    [98, 131, 1, 11], [90, 132, 0, 12], [133, 85, 13, 0], [134, 97, 12, 1], [134, 97, 12, 1],
    [136, 57, 11, 2], [136, 57, 11, 2], [62, 139, 2, 11], [62, 139, 2, 11], [98, 141, 1, 12],
    [98, 141, 1, 12], [90, 142, 0, 13], [143, 95, 14, 0], [144, 97, 13, 1], [144, 97, 13, 1],
    [68, 57, 12, 2], [68, 57, 12, 2], [62, 81, 2, 12], [62, 81, 2, 12], [98, 147, 1, 13],
    [98, 147, 1, 13], [100, 148, 0, 14], [149, 95, 15, 0], [150, 107, 14, 1],
    [150, 107, 14, 1], [108, 151, 1, 14], [108, 151, 1, 14], [100, 152, 0, 15],
    [153, 95, 16, 0], [154, 107, 15, 1], [108, 155, 1, 15], [100, 156, 0, 16],
    [157, 95, 17, 0], [158, 107, 16, 1], [108, 159, 1, 16], [100, 160, 0, 17],
    [161, 105, 18, 0], [162, 107, 17, 1], [108, 163, 1, 17], [110, 164, 0, 18],
    [165, 105, 19, 0], [166, 117, 18, 1], [118, 167, 1, 18], [110, 168, 0, 19],
    [169, 105, 20, 0], [170, 117, 19, 1], [118, 171, 1, 19], [110, 172, 0, 20],
    [173, 105, 21, 0], [174, 117, 20, 1], [118, 175, 1, 20], [110, 176, 0, 21],
    [177, 105, 22, 0], [178, 117, 21, 1], [118, 179, 1, 21], [110, 180, 0, 22],
    [181, 115, 23, 0], [182, 117, 22, 1], [118, 183, 1, 22], [120, 184, 0, 23],
    [185, 115, 24, 0], [186, 127, 23, 1], [128, 187, 1, 23], [120, 188, 0, 24],
    [189, 115, 25, 0], [190, 127, 24, 1], [128, 191, 1, 24], [120, 192, 0, 25],
    [193, 115, 26, 0], [194, 127, 25, 1], [128, 195, 1, 25], [120, 196, 0, 26],
    [197, 115, 27, 0], [198, 127, 26, 1], [128, 199, 1, 26], [120, 200, 0, 27],
    [201, 115, 28, 0], [202, 127, 27, 1], [128, 203, 1, 27], [120, 204, 0, 28],
    [205, 115, 29, 0], [206, 127, 28, 1], [128, 207, 1, 28], [120, 208, 0, 29],
    [209, 125, 30, 0], [210, 127, 29, 1], [128, 211, 1, 29], [130, 212, 0, 30],
    [213, 125, 31, 0], [214, 137, 30, 1], [138, 215, 1, 30], [130, 216, 0, 31],
    [217, 125, 32, 0], [218, 137, 31, 1], [138, 219, 1, 31], [130, 220, 0, 32],
    [221, 125, 33, 0], [222, 137, 32, 1], [138, 223, 1, 32], [130, 224, 0, 33],
    [225, 125, 34, 0], [226, 137, 33, 1], [138, 227, 1, 33], [130, 228, 0, 34],
    [229, 125, 35, 0], [230, 137, 34, 1], [138, 231, 1, 34], [130, 232, 0, 35],
    [233, 125, 36, 0], [234, 137, 35, 1], [138, 235, 1, 35], [130, 236, 0, 36],
    [237, 125, 37, 0], [238, 137, 36, 1], [138, 239, 1, 36], [130, 240, 0, 37],
    [241, 125, 38, 0], [242, 137, 37, 1], [138, 243, 1, 37], [130, 244, 0, 38],
    [245, 135, 39, 0], [246, 137, 38, 1], [138, 247, 1, 38], [140, 248, 0, 39],
    [249, 135, 40, 0], [250, 69, 39, 1], [80, 251, 1, 39], [140, 252, 0, 40],
    [249, 135, 41, 0], [250, 69, 40, 1], [80, 251, 1, 40], [140, 252, 0, 41]]"

definition nex :: "int \<Rightarrow> int \<Rightarrow> int" where
  "nex state sel = (if 0 \<le> state \<and> state < 253 then State_table ! nat state ! nat sel else 0)"

section \<open>Squash and Stretch\<close>

text \<open>The 33 anchors \<^verbatim>\<open>static const int t[33]\<close> of \<^verbatim>\<open>squash\<close>.\<close>

definition squash_t :: "int list" where
  "squash_t = [1, 2, 3, 6, 10, 16, 27, 45, 73, 120, 194, 310, 488, 747, 1101,
     1546, 2047, 2549, 2994, 3348, 3607, 3785, 3901, 3975, 4022,
     4050, 4068, 4079, 4085, 4089, 4092, 4093, 4094]"

definition squash :: "int \<Rightarrow> int" where
  "squash d =
     (if d > 2047 then 4095
      else if d < - 2047 then 0
      else let w = d AND 127;
               d' = drop_bit 7 d + 16
           in drop_bit 7 (squash_t ! nat d' * (128 - w) + squash_t ! nat (d' + 1) * w + 64))"

text \<open>
  \<^verbatim>\<open>Stretch::Stretch()\<close>: one iteration of the outer loop over \<open>x\<close> carries the table and
  \<^verbatim>\<open>pi\<close>; the inner loop writes \<open>x\<close> to the entries \<open>pi..squash x\<close>.
\<close>

definition Stretch_step :: "int \<Rightarrow> (nat \<Rightarrow> int) \<times> int \<Rightarrow> (nat \<Rightarrow> int) \<times> int" where
  "Stretch_step x = (\<lambda>(t, pi).
     let i = squash x
     in (fold (\<lambda>j t. t(nat j := x)) [pi..i] t, i + 1))"

definition Stretch_t :: "nat \<Rightarrow> int" where
  "Stretch_t = (fst (fold Stretch_step [- 2047..2047] (\<lambda>_. 0, 0)))(4095 := 2047)"

definition stretch :: "int \<Rightarrow> int" where
  "stretch p = Stretch_t (nat p)"

section \<open>Mixer\<close>

text \<open>\<^verbatim>\<open>dot_product(t, w, n)\<close>; \<open>off\<close> is the offset of \<^verbatim>\<open>w\<close> in the weight array.\<close>

definition round8 :: "nat \<Rightarrow> nat" where
  "round8 n = nat ((int n + 7) AND (- 8))"

definition dot_product :: "(nat \<Rightarrow> short) \<Rightarrow> (nat \<Rightarrow> short) \<Rightarrow> nat \<Rightarrow> nat \<Rightarrow> int" where
  "dot_product t w off n =
     fold (\<lambda>j sum. let i = 2 * j in
              sum + drop_bit 8 (sint (t i) * sint (w (off + i))
                                + sint (t (i + 1)) * sint (w (off + i + 1))))
          [0..<round8 n div 2] 0"

text \<open>\<^verbatim>\<open>train(t, w, n, err)\<close>: the new value of one weight, and the loop over the weights.\<close>

definition train_wt :: "int \<Rightarrow> int \<Rightarrow> int \<Rightarrow> int" where
  "train_wt ti wi err =
     (let wt = wi + drop_bit 1 (drop_bit 16 (ti * err * 2) + 1);
          wt = (if wt < - 32768 then - 32768 else wt);
          wt = (if wt > 32767 then 32767 else wt)
      in wt)"

definition train :: "(nat \<Rightarrow> short) \<Rightarrow> (nat \<Rightarrow> short) \<Rightarrow> nat \<Rightarrow> nat \<Rightarrow> int \<Rightarrow> (nat \<Rightarrow> short)" where
  "train t w off n err =
     fold (\<lambda>i w. w(off + i := word_of_int (train_wt (sint (t i)) (sint (w (off + i))) err)))
          [0..<round8 n] w"

record Mixer_core =
  Mixer_N :: nat
  Mixer_M :: nat
  Mixer_S :: nat
  Mixer_tx :: "nat \<Rightarrow> short"
  Mixer_wx :: "nat \<Rightarrow> short"
  Mixer_cxt :: "nat \<Rightarrow> int"
  Mixer_ncxt :: nat
  Mixer_base :: int
  Mixer_nx :: nat
  Mixer_pr :: "nat \<Rightarrow> int"

text \<open>A mixer owns its fields and, when \<open>S > 1\<close>, the mixer \<^verbatim>\<open>mp\<close> that combines its outputs.\<close>

datatype Mixer = Mixer (Mixer_fields: Mixer_core) (Mixer_mp: "Mixer option")

text \<open>The training error of context \<open>i\<close> in \<^verbatim>\<open>Mixer::update\<close>.\<close>

definition Mixer_err :: "int \<Rightarrow> int \<Rightarrow> int" where
  "Mixer_err y pr = (push_bit 12 y - pr) * 7"

definition core_update :: "int \<Rightarrow> Mixer_core \<Rightarrow> Mixer_core" where
  "core_update y c =
     (let wx' = fold (\<lambda>i w. train (Mixer_tx c) w (nat (Mixer_cxt c i) * Mixer_N c) (Mixer_nx c)
                                (Mixer_err y (Mixer_pr c i)))
                     [0..<Mixer_ncxt c] (Mixer_wx c)
      in c\<lparr>Mixer_wx := wx', Mixer_nx := 0, Mixer_base := 0, Mixer_ncxt := 0\<rparr>)"

definition core_add :: "int \<Rightarrow> Mixer_core \<Rightarrow> Mixer_core" where
  "core_add x c = c\<lparr>Mixer_tx := (Mixer_tx c)(Mixer_nx c := word_of_int x), Mixer_nx := Mixer_nx c + 1\<rparr>"

definition core_set :: "int \<Rightarrow> int \<Rightarrow> Mixer_core \<Rightarrow> Mixer_core" where
  "core_set cx rng c =
     c\<lparr>Mixer_cxt := (Mixer_cxt c)(Mixer_ncxt c := Mixer_base c + cx),
       Mixer_ncxt := Mixer_ncxt c + 1,
       Mixer_base := Mixer_base c + rng\<rparr>"

text \<open>\<^verbatim>\<open>while (nx & 7) tx[nx++] = 0;\<close>\<close>

function core_pad :: "Mixer_core \<Rightarrow> Mixer_core" where
  "core_pad c = (if int (Mixer_nx c) AND 7 \<noteq> 0 then core_pad (core_add 0 c) else c)"
  by pat_completeness auto
termination
proof (relation "measure (\<lambda>c. 7 - (Mixer_nx c + 7) mod 8)")
  show "wf (measure (\<lambda>c. 7 - (Mixer_nx c + 7) mod 8))" by simp
next
  fix c :: Mixer_core
  assume a: "int (Mixer_nx c) AND 7 \<noteq> 0"
  have "int (Mixer_nx c) AND mask 3 = int (Mixer_nx c) mod 2 ^ 3"
    by (simp flip: take_bit_eq_mask add: take_bit_eq_mod)
  then have "int (Mixer_nx c) AND 7 = int (Mixer_nx c) mod 8"
    by (simp add: mask_eq_exp_minus_1)
  with a have "Mixer_nx c mod 8 \<noteq> 0" by presburger
  then show "(core_add 0 c, c) \<in> measure (\<lambda>c. 7 - (Mixer_nx c + 7) mod 8)"
    by (simp add: core_add_def) presburger
qed

declare core_pad.simps [simp del]

fun Mixer_update :: "int \<Rightarrow> Mixer \<Rightarrow> Mixer" where
  "Mixer_update y (Mixer c mp) = Mixer (core_update y c) mp"

fun Mixer_add :: "int \<Rightarrow> Mixer \<Rightarrow> Mixer" where
  "Mixer_add x (Mixer c mp) = Mixer (core_add x c) mp"

fun Mixer_set :: "int \<Rightarrow> int \<Rightarrow> Mixer \<Rightarrow> Mixer" where
  "Mixer_set cx rng (Mixer c mp) = Mixer (core_set cx rng c) mp"

text \<open>
  The loop of \<^verbatim>\<open>Mixer::p\<close> when \<^verbatim>\<open>mp\<close> is set: context \<open>i\<close> stores its prediction in
  \<^verbatim>\<open>pr[i]\<close> and adds its stretch to the inputs of \<^verbatim>\<open>mp\<close> (the fields \<open>d\<close>).
\<close>

definition Mixer_p_step :: "nat \<Rightarrow> Mixer_core \<times> Mixer_core \<Rightarrow> Mixer_core \<times> Mixer_core" where
  "Mixer_p_step i = (\<lambda>(c, d).
     let v = squash (drop_bit 5 (dot_product (Mixer_tx c) (Mixer_wx c)
                                   (nat (Mixer_cxt c i) * Mixer_N c) (Mixer_nx c)))
     in (c\<lparr>Mixer_pr := (Mixer_pr c)(i := v)\<rparr>, core_add (stretch v) d))"

fun Mixer_p :: "int \<Rightarrow> Mixer \<Rightarrow> int \<times> Mixer" where
  "Mixer_p y (Mixer c None) =
     (let c = core_pad c;
          v = squash (drop_bit 8 (dot_product (Mixer_tx c) (Mixer_wx c) 0 (Mixer_nx c)))
      in (v, Mixer (c\<lparr>Mixer_pr := (Mixer_pr c)(0 := v)\<rparr>) None))"
| "Mixer_p y (Mixer c (Some (Mixer d mp'))) =
     (let c = core_pad c;
          d = core_update y d;
          (c, d) = fold Mixer_p_step [0..<Mixer_ncxt c] (c, d);
          d = core_set 0 1 d;
          (v, m') = Mixer_p y (Mixer d mp')
      in (v, Mixer c (Some m')))"

text \<open>
  \<^verbatim>\<open>Mixer::Mixer(n, m, s, w)\<close>. The combining mixer is \<^verbatim>\<open>new Mixer(S, 1, 1, 0x7fff)\<close>, which
  has \<open>S = 1\<close> and so no further mixer of its own.
\<close>

definition core_new :: "nat \<Rightarrow> nat \<Rightarrow> nat \<Rightarrow> int \<Rightarrow> Mixer_core" where
  "core_new n m s w =
     \<lparr>Mixer_N = round8 n, Mixer_M = m, Mixer_S = s,
      Mixer_tx = (\<lambda>_. 0),
      Mixer_wx = (\<lambda>i. if i < round8 n * m then word_of_int w else 0),
      Mixer_cxt = (\<lambda>_. 0), Mixer_ncxt = 0, Mixer_base = 0, Mixer_nx = 0,
      Mixer_pr = (\<lambda>i. if i < s then 2048 else 0)\<rparr>"

definition Mixer_new :: "nat \<Rightarrow> nat \<Rightarrow> nat \<Rightarrow> int \<Rightarrow> Mixer" where
  "Mixer_new n m s w =
     Mixer (core_new n m s w)
           (if s > 1 then Some (Mixer (core_new s 1 1 0x7fff) None) else None)"

section \<open>APM\<close>

record APM =
  APM_index :: int
  APM_N :: int
  APM_t :: "nat \<Rightarrow> U16"

text \<open>
  \<^verbatim>\<open>APM::APM(int n)\<close> writes \<^verbatim>\<open>squash((j - 16) * 128) * 16\<close> to entry \<open>j\<close> of context 0 and copies
  context 0 to the others, so entry \<open>k = i * 33 + j\<close> holds the value for \<open>j = k mod 33\<close>.
\<close>

definition APM_new :: "int \<Rightarrow> APM" where
  "APM_new n =
     \<lparr>APM_index = 0, APM_N = n,
      APM_t = (\<lambda>k. if int k < n * 33
                    then word_of_int (squash ((int (k mod 33) - 16) * 128) * 16) else 0)\<rparr>"

text \<open>\<^verbatim>\<open>t[i] += g - t[i] >> rate\<close> on a 16-bit entry.\<close>

definition APM_train :: "int \<Rightarrow> int \<Rightarrow> U16 \<Rightarrow> U16" where
  "APM_train g rate v = v + word_of_int (drop_bit (nat rate) (g - uint v))"

text \<open>\<^verbatim>\<open>int p(int pr = 2048, int cxt = 0, int rate = 7)\<close>\<close>

definition APM_p :: "int \<Rightarrow> int \<Rightarrow> int \<Rightarrow> int \<Rightarrow> APM \<Rightarrow> int \<times> APM" where
  "APM_p y pr cxt rate a =
     (let pr = stretch pr;
          g = push_bit 16 y + push_bit (nat rate) y - y - y;
          i = nat (APM_index a);
          t = APM_t a;
          t = t(i := APM_train g rate (t i));
          t = t(i + 1 := APM_train g rate (t (i + 1)));
          w = pr AND 127;
          index = drop_bit 7 (pr + 2048) + cxt * 33
      in (drop_bit 11 (uint (t (nat index)) * (128 - w) + uint (t (nat index + 1)) * w),
          a\<lparr>APM_index := index, APM_t := t\<rparr>))"

section \<open>StateMap\<close>

record StateMap =
  StateMap_cxt :: int
  StateMap_t :: "nat \<Rightarrow> U16"

definition StateMap_init :: "int \<Rightarrow> int" where
  "StateMap_init i =
     (let n0 = nex i 2;
          n1 = nex i 3;
          n1 = (if n0 = 0 then n1 * 64 else n1);
          n0 = (if n1 = 0 then n0 * 64 else n0)
      in 65536 * (n1 + 1) div (n0 + n1 + 2))"

definition StateMap_new :: StateMap where
  "StateMap_new =
     \<lparr>StateMap_cxt = 0,
      StateMap_t = (\<lambda>i. if i < 256 then word_of_int (StateMap_init (int i)) else 0)\<rparr>"

text \<open>\<^verbatim>\<open>t[cxt] += (y << 16) - t[cxt] + 128 >> 8\<close> on a 16-bit entry.\<close>

definition StateMap_train :: "int \<Rightarrow> U16 \<Rightarrow> U16" where
  "StateMap_train y v = v + word_of_int (drop_bit 8 (push_bit 16 y - uint v + 128))"

text \<open>\<^verbatim>\<open>int p(int cx)\<close>: train the entry of the previous call, then read the entry of \<open>cx\<close>.\<close>

definition StateMap_p :: "int \<Rightarrow> int \<Rightarrow> StateMap \<Rightarrow> int \<times> StateMap" where
  "StateMap_p y cx sm =
     (let c = nat (StateMap_cxt sm);
          t = (StateMap_t sm)(c := StateMap_train y (StateMap_t sm c))
      in (drop_bit 4 (uint (t (nat cx))), \<lparr>StateMap_cxt = cx, StateMap_t = t\<rparr>))"

section \<open>hash\<close>

text \<open>\<^verbatim>\<open>hash(a, b, c, d, e)\<close>; an argument left out at a call is \<^verbatim>\<open>0xffffffff\<close>.\<close>

definition hash :: "U32 \<Rightarrow> U32 \<Rightarrow> U32 \<Rightarrow> U32 \<Rightarrow> U32 \<Rightarrow> U32" where
  "hash a b c d e =
     (let h = a * 200002979 + b * 30005491 + c * 50004239 + d * 70004807 + e * 110002499
      in h XOR drop_bit 9 h XOR drop_bit 2 a XOR drop_bit 3 b XOR drop_bit 4 c
           XOR drop_bit 5 d XOR drop_bit 6 e)"

definition hash2 :: "int \<Rightarrow> int \<Rightarrow> U32" where
  "hash2 a b = hash (word_of_int a) (word_of_int b) 0xffffffff 0xffffffff 0xffffffff"

definition hash3 :: "int \<Rightarrow> int \<Rightarrow> int \<Rightarrow> U32" where
  "hash3 a b c = hash (word_of_int a) (word_of_int b) (word_of_int c) 0xffffffff 0xffffffff"

section \<open>BH\<close>

text \<open>
  An element of \<^verbatim>\<open>BH<B>\<close> is \<open>B\<close> bytes: the 16-bit checksum, which the source reads and
  writes only through \<^verbatim>\<open>U16*\<close> and in block copies, and the bytes \<open>2..B-1\<close>.
\<close>

record BH_elem =
  BH_chk :: U16
  BH_bytes :: "U8 list"

record BH =
  BH_B :: nat
  BH_t :: "nat \<Rightarrow> BH_elem"
  BH_n :: U32

definition BH_new :: "nat \<Rightarrow> int \<Rightarrow> BH" where
  "BH_new B i =
     \<lparr>BH_B = B, BH_t = (\<lambda>_. \<lparr>BH_chk = 0, BH_bytes = replicate (B - 2) 0\<rparr>),
      BH_n = word_of_int (i - 1)\<rparr>"

text \<open>
  The search loop of \<^verbatim>\<open>operator[]\<close> from position \<open>j\<close>: an element whose byte 2 is 0 takes
  the checksum; the loop stops at the first element with the checksum, or at \<open>j = M = 8\<close>.
\<close>

function BH_scan :: "U16 \<Rightarrow> nat \<Rightarrow> nat \<Rightarrow> (nat \<Rightarrow> BH_elem) \<Rightarrow> nat \<times> (nat \<Rightarrow> BH_elem)" where
  "BH_scan chk i j t =
     (if j < 8 then
        let e = t (i + j);
            t = (if BH_bytes e ! 0 = 0 then t(i + j := e\<lparr>BH_chk := chk\<rparr>) else t)
        in if BH_chk (t (i + j)) = chk then (j, t) else BH_scan chk i (j + 1) t
      else (j, t))"
  by pat_completeness auto
termination
  by (relation "measure (\<lambda>(chk, i, j, t). 8 - j)") auto

declare BH_scan.simps [simp del]

text \<open>
  \<^verbatim>\<open>U8* operator[](U32 i)\<close>. The pointer returned is byte 1 of the first element of the
  bucket in every case; the result here is the index of that element.
\<close>

definition BH_lookup :: "U32 \<Rightarrow> BH \<Rightarrow> nat \<times> BH" where
  "BH_lookup key h =
     (let chk = (ucast ((drop_bit 16 key XOR key) AND 0xffff) :: U16);
          i = unat (key * 8 AND BH_n h);
          (j, t) = BH_scan chk i 0 (BH_t h)
      in if j = 0 then (i, h\<lparr>BH_t := t\<rparr>)
         else
           let (j, tmp) =
                 (if j = 8 then
                    (if BH_bytes (t (i + 7)) ! 0 > BH_bytes (t (i + 6)) ! 0 then 6 else 7,
                     \<lparr>BH_chk = chk, BH_bytes = replicate (BH_B h - 2) 0\<rparr>)
                  else (j, t (i + j)));
               t = (\<lambda>k. if i + 1 \<le> k \<and> k \<le> i + j then t (k - 1) else t k);
               t = t(i := tmp)
           in (i, h\<lparr>BH_t := t\<rparr>))"

section \<open>RunContextMap\<close>

text \<open>\<^verbatim>\<open>cp\<close> points to byte 2 of an element of the table: \<open>RCM_cp\<close> is the element's index.\<close>

record RunContextMap =
  RCM_t :: BH
  RCM_cp :: nat

definition RunContextMap_new :: "int \<Rightarrow> RunContextMap" where
  "RunContextMap_new m =
     (let (e, h) = BH_lookup 0 (BH_new 4 (m div 4)) in \<lparr>RCM_t = h, RCM_cp = e\<rparr>)"

definition RCM_bytes :: "RunContextMap \<Rightarrow> U8 list" where
  "RCM_bytes r = BH_bytes (BH_t (RCM_t r) (RCM_cp r))"

definition RCM_store :: "U8 list \<Rightarrow> RunContextMap \<Rightarrow> RunContextMap" where
  "RCM_store bs r =
     r\<lparr>RCM_t := (RCM_t r)\<lparr>BH_t := (BH_t (RCM_t r))(RCM_cp r :=
                       (BH_t (RCM_t r) (RCM_cp r))\<lparr>BH_bytes := bs\<rparr>)\<rparr>\<rparr>"

definition RunContextMap_set :: "Globals \<Rightarrow> U32 \<Rightarrow> RunContextMap \<Rightarrow> RunContextMap" where
  "RunContextMap_set g cx r =
     (let bs = RCM_bytes r;
          r = (if bs ! 0 = 0 \<or> uint (bs ! 1) \<noteq> Buf_back g 1
               then RCM_store (bs[0 := 1, 1 := word_of_int (Buf_back g 1)]) r
               else if bs ! 0 < 255 then RCM_store (bs[0 := bs ! 0 + 1]) r
               else r);
          (e, h) = BH_lookup cx (RCM_t r)
      in \<lparr>RCM_t = h, RCM_cp = e\<rparr>)"

definition RunContextMap_p :: "Globals \<Rightarrow> RunContextMap \<Rightarrow> int" where
  "RunContextMap_p g r =
     (let bs = RCM_bytes r in
        if drop_bit (nat (8 - bpos g)) (uint (bs ! 1) + 256) = c0 g
        then ((drop_bit (nat (7 - bpos g)) (uint (bs ! 1)) AND 1) * 2 - 1)
               * ilog (uint (bs ! 0) + 1) * 8
        else 0)"

text \<open>\<^verbatim>\<open>int mix(Mixer& m)\<close>: the mixer after the call and the value returned.\<close>

definition RunContextMap_mix :: "Globals \<Rightarrow> RunContextMap \<Rightarrow> Mixer \<Rightarrow> int \<times> Mixer" where
  "RunContextMap_mix g r m =
     (of_bool (RCM_bytes r ! 0 \<noteq> 0), Mixer_add (RunContextMap_p g r) m)"

section \<open>ContextMap\<close>

text \<open>
  A hash element \<^verbatim>\<open>E\<close>: seven checksums, the queue byte \<^verbatim>\<open>last\<close> and the 49 bytes of
  \<^verbatim>\<open>bh[7][7]\<close>, byte \<open>bh[r][c]\<close> at \<open>r * 7 + c\<close>. A \<^verbatim>\<open>U8*\<close> into the table is the index of
  the element and the index of the byte in its \<^verbatim>\<open>bh\<close>; the null pointer is \<open>None\<close>.
\<close>

record E =
  E_chk :: "nat \<Rightarrow> U16"
  E_last :: U8
  E_bh :: "nat \<Rightarrow> U8"

type_synonym ptr = "nat \<times> nat"

definition padd :: "ptr \<Rightarrow> int \<Rightarrow> ptr" where
  "padd p n = (fst p, nat (int (snd p) + n))"

definition peek :: "(nat \<Rightarrow> E) \<Rightarrow> ptr \<Rightarrow> U8" where
  "peek t p = E_bh (t (fst p)) (snd p)"

definition poke :: "ptr \<Rightarrow> int \<Rightarrow> (nat \<Rightarrow> E) \<Rightarrow> (nat \<Rightarrow> E)" where
  "poke p v t = t(fst p := (t (fst p))\<lparr>E_bh := (E_bh (t (fst p)))(snd p := word_of_int v)\<rparr>)"

text \<open>
  The loop of \<^verbatim>\<open>E::get\<close> from element \<open>i\<close>, with the lowest priority \<open>b\<close> found so far at
  \<open>bi\<close>; the result is the row of \<^verbatim>\<open>bh\<close> whose address is returned.
\<close>

function E_get_loop :: "U16 \<Rightarrow> nat \<Rightarrow> int \<Rightarrow> nat \<Rightarrow> E \<Rightarrow> nat \<times> E" where
  "E_get_loop ch i b bi e =
     (if i < 7 then
        if E_chk e i = ch then (i, e\<lparr>E_last := push_bit 4 (E_last e) OR of_nat i\<rparr>)
        else
          let pri = uint (E_bh e (i * 7));
              lower = (uint (E_last e AND 15) \<noteq> int i \<and> uint (drop_bit 4 (E_last e)) \<noteq> int i
                       \<and> pri < b)
          in E_get_loop ch (i + 1) (if lower then pri else b) (if lower then i else bi) e
      else (bi, e\<lparr>E_last := 0xf0 OR of_nat bi,
                  E_chk := (E_chk e)(bi := ch),
                  E_bh := (\<lambda>k. if bi * 7 \<le> k \<and> k < bi * 7 + 7 then 0 else E_bh e k)\<rparr>))"
  by pat_completeness auto
termination
  by (relation "measure (\<lambda>(ch, i, b, bi, e). 7 - i)") auto

declare E_get_loop.simps [simp del]

definition E_get :: "U16 \<Rightarrow> E \<Rightarrow> nat \<times> E" where
  "E_get ch e =
     (let l = unat (E_last e AND 15)
      in if E_chk e l = ch then (l, e) else E_get_loop ch 0 0xffff 0 e)"

record ContextMap =
  CM_C :: nat
  CM_size :: int
  CM_t :: "nat \<Rightarrow> E"
  CM_cp :: "nat \<Rightarrow> ptr option"
  CM_cp0 :: "nat \<Rightarrow> ptr"
  CM_cxt :: "nat \<Rightarrow> U32"
  CM_runp :: "nat \<Rightarrow> ptr"
  CM_sm :: "nat \<Rightarrow> StateMap"
  CM_cn :: int

text \<open>\<^verbatim>\<open>ContextMap::ContextMap(int m, int c)\<close>, with \<^verbatim>\<open>t(m >> 6)\<close>.\<close>

definition ContextMap_new :: "int \<Rightarrow> nat \<Rightarrow> ContextMap" where
  "ContextMap_new m c =
     \<lparr>CM_C = c, CM_size = drop_bit 6 m,
      CM_t = (\<lambda>_. \<lparr>E_chk = (\<lambda>_. 0), E_last = 0, E_bh = (\<lambda>_. 0)\<rparr>),
      CM_cp = (\<lambda>_. Some (0, 0)), CM_cp0 = (\<lambda>_. (0, 0)),
      CM_cxt = (\<lambda>_. 0), CM_runp = (\<lambda>_. (0, 3)),
      CM_sm = (\<lambda>_. StateMap_new), CM_cn = 0\<rparr>"

text \<open>\<^verbatim>\<open>void set(U32 cx, int next = -1)\<close>\<close>

definition ContextMap_set :: "U32 \<Rightarrow> int \<Rightarrow> ContextMap \<Rightarrow> ContextMap" where
  "ContextMap_set cx next cm =
     (let i = CM_cn cm AND next;
          cx = cx * 987654323 + word_of_int i;
          cx = push_bit 16 cx OR drop_bit 16 cx
      in cm\<lparr>CM_cn := CM_cn cm + 1,
            CM_cxt := (CM_cxt cm)(nat i := cx * 123456791 + word_of_int i)\<rparr>)"

text \<open>\<^verbatim>\<open>t[cxt[i] + k & t.size() - 1].get(cxt[i] >> 16)\<close>: the pointer returned and the table.\<close>

definition CM_get :: "ContextMap \<Rightarrow> nat \<Rightarrow> int \<Rightarrow> ptr \<times> (nat \<Rightarrow> E)" where
  "CM_get cm i k =
     (let x = CM_cxt cm i;
          j = unat ((x + word_of_int k) AND word_of_int (CM_size cm - 1));
          (r, e) = E_get (ucast (drop_bit 16 x)) (CM_t cm j)
      in ((j, r * 7), (CM_t cm)(j := e)))"

text \<open>
  The first step of the loop body of \<^verbatim>\<open>mix1\<close>: the bit history under \<^verbatim>\<open>cp[i]\<close> moves to its
  next state, lowered by 4 when it is 204 or more and the shifted random number is not 0.
\<close>

definition mix1_train :: "int \<Rightarrow> nat \<Rightarrow> ContextMap \<times> Random \<Rightarrow> ContextMap \<times> Random" where
  "mix1_train y1 i = (\<lambda>(cm, rnd).
     case CM_cp cm i of
       None \<Rightarrow> (cm, rnd)
     | Some p \<Rightarrow>
         let ns = nex (uint (peek (CM_t cm) p)) y1;
             (dec, rnd) =
               (if ns \<ge> 204
                then let (v, rnd) = Random_next rnd
                     in (push_bit (nat (drop_bit 3 (452 - ns))) v \<noteq> 0, rnd)
                else (False, rnd));
             ns = (if dec then ns - 4 else ns)
         in (cm\<lparr>CM_t := poke p ns (CM_t cm)\<rparr>, rnd))"

text \<open>
  The built-in run model at a byte boundary, on the pair \<^verbatim>\<open>(runp[i][0], runp[i][1])\<close> of count
  and byte, with \<open>c1\<close> the last whole byte.
\<close>

definition run_update :: "int \<Rightarrow> U8 \<times> U8 \<Rightarrow> U8 \<times> U8" where
  "run_update c1 = (\<lambda>(n, b).
     if n = 0 then (2, word_of_int c1)
     else if uint b \<noteq> c1 then (1, word_of_int c1)
     else if n < 254 then (n + 2, b)
     else if n = 255 then (128, b)
     else (n, b))"

text \<open>The pending bit histories of bits 2 to 7, written when \<^verbatim>\<open>cp0[i][3] == 2\<close>.\<close>

definition mix1_pending :: "nat \<Rightarrow> ContextMap \<Rightarrow> ContextMap" where
  "mix1_pending i cm =
     (if peek (CM_t cm) (padd (CM_cp0 cm i) 3) = 2 then
        let c = uint (peek (CM_t cm) (padd (CM_cp0 cm i) 4)) + 256;
            (p, t) = CM_get cm i (drop_bit 6 c);
            t = poke p (1 + (drop_bit 5 c AND 1)) t;
            t = poke (padd p (1 + (drop_bit 5 c AND 1))) (1 + (drop_bit 4 c AND 1)) t;
            t = poke (padd p (3 + (drop_bit 4 c AND 3))) (1 + (drop_bit 3 c AND 1)) t;
            cm = cm\<lparr>CM_t := t\<rparr>;
            (p, t) = CM_get cm i (drop_bit 3 c);
            t = poke p (1 + (drop_bit 2 c AND 1)) t;
            t = poke (padd p (1 + (drop_bit 2 c AND 1))) (1 + (drop_bit 1 c AND 1)) t;
            t = poke (padd p (3 + (drop_bit 1 c AND 3))) (1 + (c AND 1)) t;
            t = poke (padd (CM_cp0 cm i) 6) 0 t
        in cm\<lparr>CM_t := t\<rparr>
      else cm)"

definition mix1_run :: "int \<Rightarrow> nat \<Rightarrow> ContextMap \<Rightarrow> ContextMap" where
  "mix1_run c1 i cm =
     (let r = CM_runp cm i;
          t = CM_t cm;
          (n, b) = run_update c1 (peek t r, peek t (padd r 1));
          t = poke (padd r 1) (uint b) (poke r (uint n) t)
      in cm\<lparr>CM_t := t, CM_runp := (CM_runp cm)(i := padd (CM_cp0 cm i) 3)\<rparr>)"

text \<open>The second step: the context pointers, by the global \<^verbatim>\<open>bpos\<close>.\<close>

definition mix1_pointers :: "Globals \<Rightarrow> int \<Rightarrow> int \<Rightarrow> nat \<Rightarrow> ContextMap \<Rightarrow> ContextMap" where
  "mix1_pointers g cc c1 i cm =
     (if bpos g > 1 \<and> peek (CM_t cm) (CM_runp cm i) = 0
      then cm\<lparr>CM_cp := (CM_cp cm)(i := None)\<rparr>
      else if bpos g = 1 \<or> bpos g = 3 \<or> bpos g = 6
      then cm\<lparr>CM_cp := (CM_cp cm)(i := Some (padd (CM_cp0 cm i) (1 + (cc AND 1))))\<rparr>
      else if bpos g = 4 \<or> bpos g = 7
      then cm\<lparr>CM_cp := (CM_cp cm)(i := Some (padd (CM_cp0 cm i) (3 + (cc AND 3))))\<rparr>
      else
        let (p, t) = CM_get cm i cc;
            cm = cm\<lparr>CM_t := t, CM_cp := (CM_cp cm)(i := Some p), CM_cp0 := (CM_cp0 cm)(i := p)\<rparr>
        in if bpos g = 0 then mix1_run c1 i (mix1_pending i cm) else cm)"

text \<open>\<^verbatim>\<open>mix2(m, s, sm)\<close>: the value returned, the state map and the mixer after the call.\<close>

definition mix2 :: "int \<Rightarrow> int \<Rightarrow> StateMap \<Rightarrow> Mixer \<Rightarrow> int \<times> StateMap \<times> Mixer" where
  "mix2 y s sm m =
     (let (p1, sm) = StateMap_p y s sm;
          n0 = - of_bool (nex s 2 = 0);
          n1 = - of_bool (nex s 3 = 0);
          st = drop_bit 2 (stretch p1);
          m = Mixer_add st m;
          p1 = drop_bit 4 p1;
          p0 = 255 - p1;
          m = Mixer_add (p1 - p0) m;
          m = Mixer_add (st * (n1 - n0)) m;
          m = Mixer_add ((p1 AND n0) - (p0 AND n1)) m;
          m = Mixer_add ((p1 AND n1) - (p0 AND n0)) m
      in (of_bool (s > 0), sm, m))"

text \<open>The third step: the prediction of the run model, then of the bit history.\<close>

definition mix1_predict ::
  "int \<Rightarrow> int \<Rightarrow> int \<Rightarrow> nat \<Rightarrow> ContextMap \<times> Mixer \<Rightarrow> int \<times> ContextMap \<times> Mixer" where
  "mix1_predict y cc bp i = (\<lambda>(cm, m).
     let rc = uint (peek (CM_t cm) (CM_runp cm i));
         rb = uint (peek (CM_t cm) (padd (CM_runp cm i) 1));
         m = (if drop_bit (nat (8 - bp)) (rb + 256) = cc
              then let b = (drop_bit (nat (7 - bp)) rb AND 1) * 2 - 1;
                       c = push_bit (nat (2 + (NOT rc AND 1))) (ilog (rc + 1))
                   in Mixer_add (b * c) m
              else Mixer_add 0 m);
         s = (case CM_cp cm i of None \<Rightarrow> 0 | Some p \<Rightarrow> uint (peek (CM_t cm) p));
         (r, sm, m) = mix2 y s (CM_sm cm i) m
     in (r, cm\<lparr>CM_sm := (CM_sm cm)(i := sm)\<rparr>, m))"

text \<open>
  \<^verbatim>\<open>int mix1(Mixer& m, int cc, int bp, int c1, int y1)\<close>: the body of the loop for context
  \<open>i\<close>, and the loop over \<open>i < cn\<close>. The global \<^verbatim>\<open>y\<close> is read by the state maps.
\<close>

definition mix1_step ::
  "int \<Rightarrow> Globals \<Rightarrow> int \<Rightarrow> int \<Rightarrow> int \<Rightarrow> int \<Rightarrow> nat
     \<Rightarrow> ContextMap \<times> Mixer \<times> Random \<times> int \<Rightarrow> ContextMap \<times> Mixer \<times> Random \<times> int" where
  "mix1_step y g cc bp c1 y1 i = (\<lambda>(cm, m, rnd, result).
     let (cm, rnd) = mix1_train y1 i (cm, rnd);
         cm = mix1_pointers g cc c1 i cm;
         (r, cm, m) = mix1_predict y cc bp i (cm, m)
     in (cm, m, rnd, result + r))"

definition ContextMap_mix1 ::
  "int \<Rightarrow> Globals \<Rightarrow> int \<Rightarrow> int \<Rightarrow> int \<Rightarrow> int
     \<Rightarrow> ContextMap \<times> Mixer \<times> Random \<Rightarrow> int \<times> ContextMap \<times> Mixer \<times> Random" where
  "ContextMap_mix1 y g cc bp c1 y1 = (\<lambda>(cm, m, rnd).
     let (cm, m, rnd, result) =
           fold (mix1_step y g cc bp c1 y1) [0..<nat (CM_cn cm)] (cm, m, rnd, 0);
         cm = (if bp = 7 then cm\<lparr>CM_cn := 0\<rparr> else cm)
     in (result, cm, m, rnd))"

text \<open>\<^verbatim>\<open>int mix(Mixer& m) { return mix1(m, c0, bpos, buf(1), y); }\<close>\<close>

definition ContextMap_mix ::
  "int \<Rightarrow> Globals \<Rightarrow> ContextMap \<times> Mixer \<times> Random \<Rightarrow> int \<times> ContextMap \<times> Mixer \<times> Random" where
  "ContextMap_mix y g = ContextMap_mix1 y g (c0 g) (bpos g) (Buf_back g 1) y"

section \<open>contextModel2\<close>

text \<open>
  The static variables of \<^verbatim>\<open>contextModel2\<close>. The macro \<^verbatim>\<open>MEM\<close> and the enumeration
  \<^verbatim>\<open>Filetype\<close> are declared outside this file: \<open>MEM\<close> is a parameter of the initial state, and
  \<open>EXE\<close> is the constant 2 of \<^verbatim>\<open>enum {DEFAULT, JPEG, EXE, TEXT}\<close>, which the file quotes in a
  comment.
\<close>

definition EXE :: int where
  "EXE = 2"

record Model =
  Model_cm :: ContextMap
  Model_rcm7 :: RunContextMap
  Model_rcm9 :: RunContextMap
  Model_rcm10 :: RunContextMap
  Model_m :: Mixer
  Model_cxt :: "nat \<Rightarrow> U32"
  Model_filetype :: int
  Model_size :: int

definition Model_new :: "int \<Rightarrow> Model" where
  "Model_new MEM =
     \<lparr>Model_cm = ContextMap_new (MEM * 32) 9,
      Model_rcm7 = RunContextMap_new MEM,
      Model_rcm9 = RunContextMap_new MEM,
      Model_rcm10 = RunContextMap_new MEM,
      Model_m = Mixer_new 800 3088 7 128,
      Model_cxt = (\<lambda>_. 0), Model_filetype = 0, Model_size = 0\<rparr>"

text \<open>A value stored in a 32-bit \<^verbatim>\<open>int\<close>.\<close>

definition int32 :: "int \<Rightarrow> int" where
  "int32 x = sint (word_of_int x :: 32 word)"

text \<open>Parse filetype and size, at a byte boundary.\<close>

definition model_header :: "Globals \<Rightarrow> Model \<Rightarrow> Model" where
  "model_header g s =
     (if bpos g = 0 then
        let s = s\<lparr>Model_size := Model_size s - 1\<rparr>;
            s = (if Model_size s = - 1 then s\<lparr>Model_filetype := Buf_back g 1\<rparr> else s)
        in if Model_size s = - 5 then
             let s = s\<lparr>Model_size :=
                        int32 (push_bit 24 (Buf_back g 4) OR push_bit 16 (Buf_back g 3)
                               OR push_bit 8 (Buf_back g 2) OR Buf_back g 1)\<rparr>
             in if Model_filetype s = EXE then s\<lparr>Model_size := Model_size s + 8\<rparr> else s
           else s
      else s)"

text \<open>The contexts of orders 0 to 11 and their assignment to the models, at a byte boundary.\<close>

definition model_contexts :: "Globals \<Rightarrow> Model \<Rightarrow> Model" where
  "model_contexts g s =
     (if bpos g = 0 then
        let cxt = fold (\<lambda>i cxt. cxt(i := cxt (i - 1) * 257 + (c4 g AND 255) + 1))
                       (rev [1..<16]) (Model_cxt s);
            cm = fold (\<lambda>i. ContextMap_set (cxt i) (- 1)) [0..<7] (Model_cm s);
            rcm7 = RunContextMap_set g (cxt 7) (Model_rcm7 s);
            cm = ContextMap_set (cxt 8) (- 1) cm;
            rcm9 = RunContextMap_set g (cxt 10) (Model_rcm9 s);
            rcm10 = RunContextMap_set g (cxt 12) (Model_rcm10 s);
            cm = ContextMap_set (cxt 14) (- 1) cm
        in s\<lparr>Model_cxt := cxt, Model_cm := cm, Model_rcm7 := rcm7, Model_rcm9 := rcm9,
              Model_rcm10 := rcm10\<rparr>
      else s)"

text \<open>The six weight sets selected for the mixer.\<close>

definition model_select :: "Globals \<Rightarrow> int \<Rightarrow> int \<Rightarrow> Mixer \<Rightarrow> Mixer" where
  "model_select g filetype order m =
     (let c1 = Buf_back g 1; c2 = Buf_back g 2; c3 = Buf_back g 3;
          m = Mixer_set (c1 + 8) 264 m;
          m = Mixer_set (c0 g) 256 m;
          m = Mixer_set (order + 8 * uint (drop_bit 5 (c4 g) AND 7) + 64 * of_bool (c1 = c2)
                         + 128 * of_bool (filetype = EXE)) 256 m;
          m = Mixer_set c2 256 m;
          m = Mixer_set c3 256 m;
          c = (if bpos g \<noteq> 0 then
                 let c = push_bit (nat (8 - bpos g)) (c0 g);
                     c = (if bpos g = 1 then c + c3 div 2 else c)
                 in min (bpos g) 5 * 256 + c1 div 32 + 8 * (c2 div 32) + (c AND 192)
               else c3 div 128 + uint (drop_bit 31 (c4 g)) * 2 + 4 * (c2 div 64) + (c1 AND 240))
      in Mixer_set c 1536 m)"

text \<open>\<^verbatim>\<open>int contextModel2()\<close>: the prediction, the static variables and \<^verbatim>\<open>rnd\<close> after the call.\<close>

definition contextModel2 :: "int \<Rightarrow> Globals \<Rightarrow> Model \<times> Random \<Rightarrow> int \<times> Model \<times> Random" where
  "contextModel2 y g = (\<lambda>(s, rnd).
     let s = model_header g s;
         m = Mixer_add 256 (Mixer_update y (Model_m s));
         s = model_contexts g s;
         (order, cm, m, rnd) = ContextMap_mix y g (Model_cm s, m, rnd);
         (r7, m) = RunContextMap_mix g (Model_rcm7 s) m;
         (r9, m) = RunContextMap_mix g (Model_rcm9 s) m;
         (r10, m) = RunContextMap_mix g (Model_rcm10 s) m;
         order = order - 2;
         order = (if order < 0 then 0 else order);
         m = model_select g (Model_filetype s) order m;
         (pr, m) = Mixer_p y m
     in (pr, s\<lparr>Model_cm := cm, Model_m := m\<rparr>, rnd))"

section \<open>Predictor\<close>

text \<open>
  The predictor with everything its \<^verbatim>\<open>update\<close> reads and writes: the member \<^verbatim>\<open>pr\<close>, the seven
  static \<^verbatim>\<open>APM\<close>s, the global context, the static variables of \<^verbatim>\<open>contextModel2\<close> and the
  generator \<^verbatim>\<open>rnd\<close>.
\<close>

record Predictor =
  pr :: int
  apm_a :: APM
  apm_a1 :: APM
  apm_a2 :: APM
  apm_a3 :: APM
  apm_a4 :: APM
  apm_a5 :: APM
  apm_a6 :: APM
  globals :: Globals
  model :: Model
  rnd :: Random

definition Predictor_new :: "int \<Rightarrow> Predictor" where
  "Predictor_new MEM =
     \<lparr>pr = 2048, apm_a = APM_new 256,
      apm_a1 = APM_new 0x10000, apm_a2 = APM_new 0x10000, apm_a3 = APM_new 0x10000,
      apm_a4 = APM_new 0x10000, apm_a5 = APM_new 0x10000, apm_a6 = APM_new 0x10000,
      globals = Globals_new, model = Model_new MEM, rnd = Random_new\<rparr>"

text \<open>Update global context: \<^verbatim>\<open>pos\<close>, \<^verbatim>\<open>bpos\<close>, \<^verbatim>\<open>c0\<close>, \<^verbatim>\<open>c4\<close>, \<^verbatim>\<open>buf\<close>.\<close>

definition update_context :: "int \<Rightarrow> Globals \<Rightarrow> Globals" where
  "update_context y g =
     (let g = g\<lparr>c0 := c0 g + (c0 g + y)\<rparr>;
          g = (if c0 g \<ge> 256
               then g\<lparr>buf := Buf_store (pos g) (word_of_int (c0 g)) (buf g),
                      pos := pos g + 1,
                      c4 := push_bit 8 (c4 g) + word_of_int (c0 g) - 256,
                      c0 := 1\<rparr>
               else g)
      in g\<lparr>bpos := (bpos g + 1) AND 7\<rparr>)"

text \<open>The contexts of the three high order \<^verbatim>\<open>APM\<close>s.\<close>

definition apm_cx1 :: "Globals \<Rightarrow> int" where
  "apm_cx1 g = c0 g + 256 * Buf_back g 1"

definition apm_cx2 :: "Globals \<Rightarrow> int" where
  "apm_cx2 g = uint (word_of_int (c0 g) XOR (hash2 (Buf_back g 1) (Buf_back g 2) AND 0xffff))"

definition apm_cx3 :: "Globals \<Rightarrow> int" where
  "apm_cx3 g =
     uint (word_of_int (c0 g) XOR (hash3 (Buf_back g 1) (Buf_back g 2) (Buf_back g 3) AND 0xffff))"

text \<open>\<^verbatim>\<open>void Predictor::update()\<close>\<close>

definition Predictor_update :: "int \<Rightarrow> Predictor \<Rightarrow> Predictor" where
  "Predictor_update y s =
     (let g = update_context y (globals s);
          (pr0, mdl, r) = contextModel2 y g (model s, rnd s);
          (p, a) = APM_p y pr0 (c0 g) 7 (apm_a s);
          (pr1, a1) = APM_p y pr0 (apm_cx1 g) 7 (apm_a1 s);
          (pr2, a2) = APM_p y pr0 (apm_cx2 g) 7 (apm_a2 s);
          (pr3, a3) = APM_p y pr0 (apm_cx3 g) 7 (apm_a3 s);
          pr0 = drop_bit 2 (pr0 + pr1 + pr2 + pr3 + 2);
          (pr1, a4) = APM_p y p (apm_cx1 g) 7 (apm_a4 s);
          (pr2, a5) = APM_p y p (apm_cx2 g) 7 (apm_a5 s);
          (pr3, a6) = APM_p y p (apm_cx3 g) 7 (apm_a6 s);
          p = drop_bit 2 (p + pr1 + pr2 + pr3 + 2);
          p = drop_bit 1 (p + pr0 + 1)
      in \<lparr>pr = p, apm_a = a, apm_a1 = a1, apm_a2 = a2, apm_a3 = a3,
          apm_a4 = a4, apm_a5 = a5, apm_a6 = a6,
          globals = g, model = mdl, rnd = r\<rparr>)"

text \<open>
  The driver's loop: \<^verbatim>\<open>update\<close> once for every observed bit, from the initial predictor. The
  value \<^verbatim>\<open>p()\<close> exposes after a run is the field \<open>pr\<close>.
\<close>

definition Predictor_run :: "int \<Rightarrow> int list \<Rightarrow> Predictor" where
  "Predictor_run MEM ys = fold Predictor_update ys (Predictor_new MEM)"

section \<open>Ranges of the predictions\<close>

lemma and_127_int: "(x::int) AND 127 = x mod 128"
proof -
  have "x AND mask 7 = x mod 2 ^ 7" by (simp flip: take_bit_eq_mask add: take_bit_eq_mod)
  then show ?thesis by (simp add: mask_eq_exp_minus_1)
qed

lemma squash_t_length: "length squash_t = 33"
  by (simp add: squash_t_def)

lemma squash_t_range: "k < 33 \<Longrightarrow> 1 \<le> squash_t ! k \<and> squash_t ! k \<le> 4094"
proof -
  assume k: "k < 33"
  have "\<forall>x \<in> set squash_t. 1 \<le> x \<and> x \<le> 4094" by (simp add: squash_t_def)
  moreover from k have "squash_t ! k \<in> set squash_t" by (simp add: squash_t_length)
  ultimately show ?thesis by blast
qed

text \<open>squash in the interpolated range, with div and mod\<close>
lemma squash_mid:
  assumes "- 2047 \<le> d" "d \<le> 2047"
  shows "squash d = (squash_t ! nat (d div 128 + 16) * (128 - d mod 128)
                     + squash_t ! nat (d div 128 + 17) * (d mod 128) + 64) div 128"
  using assms by (simp add: squash_def Let_def and_127_int drop_bit_eq_div add.commute)

lemma div_bounds:
  fixes x c k :: int
  assumes "0 \<le> x" "x \<le> c" "0 < k"
  shows "0 \<le> x div k \<and> x div k \<le> c div k"
  using assms by (simp add: pos_imp_zdiv_nonneg_iff zdiv_mono1)

lemma interp_bound:
  fixes a b w lo hi :: int
  assumes "0 \<le> w" "w \<le> 128" "lo \<le> a" "a \<le> hi" "lo \<le> b" "b \<le> hi"
  shows "lo * 128 \<le> a * (128 - w) + b * w" and "a * (128 - w) + b * w \<le> hi * 128"
proof -
  have 1: "a * (128 - w) \<le> hi * (128 - w)" "lo * (128 - w) \<le> a * (128 - w)"
    using assms by (simp_all add: mult_right_mono)
  have 2: "b * w \<le> hi * w" "lo * w \<le> b * w"
    using assms by (simp_all add: mult_right_mono)
  have 3: "hi * (128 - w) + hi * w = hi * 128" "lo * (128 - w) + lo * w = lo * 128"
    by (simp_all add: algebra_simps)
  show "lo * 128 \<le> a * (128 - w) + b * w" using 1 2 3 by linarith
  show "a * (128 - w) + b * w \<le> hi * 128" using 1 2 3 by linarith
qed

lemma squash_bounds: "0 \<le> squash d \<and> squash d \<le> 4095"
proof (cases "- 2047 \<le> d \<and> d \<le> 2047")
  case False
  then show ?thesis by (auto simp: squash_def)
next
  case True
  define k where "k = nat (d div 128 + 16)"
  define w where "w = d mod 128"
  have dv: "- 16 \<le> d div 128" "d div 128 \<le> 15" using True by presburger+
  then have kb: "k < 32" unfolding k_def by simp
  have k1: "nat (d div 128 + 17) = k + 1" using dv unfolding k_def by simp
  have wb: "0 \<le> w" "w \<le> 128" unfolding w_def by simp_all
  have a: "1 \<le> squash_t ! k" "squash_t ! k \<le> 4094" using squash_t_range [of k] kb by simp_all
  have b: "1 \<le> squash_t ! (k + 1)" "squash_t ! (k + 1) \<le> 4094"
    using squash_t_range [of "k + 1"] kb by simp_all
  have eq: "squash d = (squash_t ! k * (128 - w) + squash_t ! (k + 1) * w + 64) div 128"
    using squash_mid [of d] True k1 by (simp add: k_def w_def)
  from interp_bound [OF wb a b]
  have "1 * 128 \<le> squash_t ! k * (128 - w) + squash_t ! (k + 1) * w"
    and "squash_t ! k * (128 - w) + squash_t ! (k + 1) * w \<le> 4094 * 128" by simp_all
  then show ?thesis unfolding eq
    using div_bounds [of "squash_t ! k * (128 - w) + squash_t ! (k + 1) * w + 64" "4094 * 128 + 64" 128]
    by simp
qed

lemma APM_p_bounds: "0 \<le> fst (APM_p y p cx rate a) \<and> fst (APM_p y p cx rate a) \<le> 4095"
proof -
  have *: "0 \<le> drop_bit 11 (uint u * (128 - w) + uint v * w)
         \<and> drop_bit 11 (uint u * (128 - w) + uint v * w) \<le> 4095"
    if "w = x AND 127" for u v :: U16 and w x :: int
  proof -
    have "0 \<le> x mod 128" "x mod 128 < 128" by simp_all
    then have wb: "0 \<le> w" "w \<le> 128" using that by (simp_all add: and_127_int)
    have ub: "0 \<le> uint u" "uint u \<le> 65535" using uint_lt2p [of u] by simp_all
    have vb: "0 \<le> uint v" "uint v \<le> 65535" using uint_lt2p [of v] by simp_all
    from interp_bound [OF wb ub vb]
    have "0 \<le> uint u * (128 - w) + uint v * w" "uint u * (128 - w) + uint v * w \<le> 65535 * 128"
      by simp_all
    then show ?thesis unfolding drop_bit_eq_div
      using div_bounds [of "uint u * (128 - w) + uint v * w" "65535 * 128" "2 ^ 11"] by simp
  qed
  show ?thesis unfolding APM_p_def Let_def fst_conv by (rule * [OF refl])
qed

lemma core_Mixer_p_bounds: "0 \<le> fst (Mixer_p y m) \<and> fst (Mixer_p y m) \<le> 4095"
proof (induction y m rule: Mixer_p.induct)
  case (1 y c)
  show ?case by (simp add: Let_def squash_bounds)
next
  case (2 y c d mp')
  obtain c2 d2 where f:
    "fold Mixer_p_step [0..<Mixer_ncxt (core_pad c)] (core_pad c, core_update y d) = (c2, d2)"
    by fastforce
  have "0 \<le> fst (Mixer_p y (Mixer (core_set 0 1 d2) mp'))
        \<and> fst (Mixer_p y (Mixer (core_set 0 1 d2) mp')) \<le> 4095"
    using 2 [OF refl refl refl f [symmetric] refl] .
  then show ?case by (auto simp add: Let_def f split: prod.splits)
qed

lemma contextModel2_bounds:
  "0 \<le> fst (contextModel2 y g sr) \<and> fst (contextModel2 y g sr) \<le> 4095"
  using core_Mixer_p_bounds
  by (simp add: contextModel2_def Let_def split: prod.splits) (metis fst_conv)

lemma avg4:
  fixes a b c d :: int
  assumes "0 \<le> a \<and> a \<le> 4095" "0 \<le> b \<and> b \<le> 4095" "0 \<le> c \<and> c \<le> 4095" "0 \<le> d \<and> d \<le> 4095"
  shows "0 \<le> drop_bit 2 (a + b + c + d + 2) \<and> drop_bit 2 (a + b + c + d + 2) \<le> 4095"
  using div_bounds [of "a + b + c + d + 2" "4 * 4095 + 2" 4] assms
  unfolding drop_bit_eq_div by simp

lemma avg2:
  fixes a b :: int
  assumes "0 \<le> a \<and> a \<le> 4095" "0 \<le> b \<and> b \<le> 4095"
  shows "0 \<le> drop_bit 1 (a + b + 1) \<and> drop_bit 1 (a + b + 1) \<le> 4095"
  using div_bounds [of "a + b + 1" "2 * 4095 + 1" 2] assms
  unfolding drop_bit_eq_div by simp

lemma Predictor_update_pr: "0 \<le> pr (Predictor_update y s) \<and> pr (Predictor_update y s) \<le> 4095"
proof -
  obtain pr0 mdl r where cm: "contextModel2 y (update_context y (globals s)) (model s, rnd s) = (pr0, mdl, r)"
    by (metis prod_cases3)
  have b0: "0 \<le> pr0 \<and> pr0 \<le> 4095" using contextModel2_bounds [of y "update_context y (globals s)" "(model s, rnd s)"] cm by simp
  note A = APM_p_bounds
  show ?thesis
    unfolding Predictor_update_def Let_def cm prod.case
    apply (simp only: split_beta Predictor.simps)
    apply (rule avg2)
     apply (rule avg4) 
        apply (rule A)+
    apply (rule avg4)
       apply (rule b0)
      apply (rule A)+
    done
qed

text \<open>
  C1. The probability \<open>pr\<close> that \<^verbatim>\<open>Predictor::p\<close> returns is 2048 in the initial predictor and
  lies in \<open>[0, 4095]\<close> after every sequence of calls of \<^verbatim>\<open>Predictor::update\<close>, whatever the
  values of \<open>y\<close> fed to them.
\<close>

theorem Predictor_pr_range:
  "pr (Predictor_new MEM) = 2048
   \<and> 0 \<le> pr (Predictor_run MEM ys) \<and> pr (Predictor_run MEM ys) \<le> 4095"
proof (cases ys rule: rev_cases)
  case Nil
  then show ?thesis by (simp add: Predictor_run_def Predictor_new_def)
next
  case (snoc xs x)
  then show ?thesis
    using Predictor_update_pr [of x "fold Predictor_update xs (Predictor_new MEM)"]
    by (simp add: Predictor_run_def Predictor_new_def)
qed

section \<open>The training error of the mixer\<close>

text \<open>
  C7. In \<^verbatim>\<open>Mixer::update\<close> the training error \<open>err = ((y << 12) - pr[i]) * 7\<close> of a context
  whose stored prediction is in \<open>[0, 4095]\<close> satisfies \<open>|err| < 32768\<close> when \<open>y\<close> is a bit,
  so the assertion \<^verbatim>\<open>err >= -32768 && err < 32768\<close> cannot fail.
\<close>

theorem Mixer_err_bound:
  assumes "y = 0 \<or> y = 1" and "0 \<le> p" and "p \<le> 4095"
  shows "\<bar>Mixer_err y p\<bar> < 32768 \<and> - 32768 \<le> Mixer_err y p \<and> Mixer_err y p < 32768"
  using assms by (auto simp: Mixer_err_def)

theorem Mixer_err_bound_witness:
  "((1::int) = 0 \<or> (1::int) = 1) \<and> (0::int) \<le> 0 \<and> (0::int) \<le> 4095
   \<and> \<bar>Mixer_err 1 0\<bar> < 32768 \<and> Mixer_err 1 0 = 28672"
  using Mixer_err_bound [of 1 0] by (simp add: Mixer_err_def)

section \<open>The global bit context\<close>

lemma globals_update: "globals (Predictor_update y s) = update_context y (globals s)"
  by (simp add: Predictor_update_def Let_def split_beta)

lemma globals_run: "globals (Predictor_run MEM ys) = fold update_context ys Globals_new"
proof (induction ys rule: rev_induct)
  case Nil
  show ?case by (simp add: Predictor_run_def Predictor_new_def)
next
  case (snoc y ys)
  then show ?case by (simp add: Predictor_run_def globals_update)
qed








lemma and_255_int: "(x::int) AND 255 = x mod 256"
proof -
  have "x AND mask 8 = x mod 2 ^ 8" by (simp flip: take_bit_eq_mask add: take_bit_eq_mod)
  then show ?thesis by (simp add: mask_eq_exp_minus_1)
qed







section \<open>The low byte of c4 and the buffer\<close>

lemma buf1_step:
  assumes "uint (c4 g AND 255) = Buf_back g 1"
  shows "uint (c4 (update_context y g) AND 255) = Buf_back (update_context y g) 1"
proof (cases "256 \<le> c0 g + (c0 g + y)")
  case False
  then show ?thesis using assms by (simp add: update_context_def Let_def Buf_back_def)
next
  case True
  define b where "b = c0 g + (c0 g + y)"
  have 1: "uint ((push_bit 8 (c4 g) + word_of_int b - 256) AND 255 :: U32) = b mod 256"
  proof -
    have a: "uint ((push_bit 8 (c4 g) + word_of_int b - 256) AND 255 :: U32)
             = uint (push_bit 8 (c4 g) + word_of_int b - 256 :: U32) mod 256"
      by (simp add: uint_and and_255_int)
    have b: "uint (push_bit 8 (c4 g) + word_of_int b - 256 :: U32)
             = (uint (c4 g) * 256 + b - 256) mod 2 ^ 32"
      by (simp add: uint_word_ariths push_bit_eq_mult uint_word_of_int mod_simps)
    have c: "(uint (c4 g) * 256 + b - 256) mod 2 ^ 32 mod 256 = (uint (c4 g) * 256 + b - 256) mod 256"
      by (rule mod_mod_cancel) simp
    have "uint (c4 g) * 256 + b - 256 = b + 256 * (uint (c4 g) - 1)" by simp
    then have d: "(uint (c4 g) * 256 + b - 256) mod 256 = b mod 256"
      by (simp only: mod_mult_self2)
    show ?thesis unfolding a b c d ..
  qed
  have 2: "uint (word_of_int b :: U8) = b mod 256" by (simp add: uint_word_of_int)
  show ?thesis
    using True 1 2 by (simp add: update_context_def Let_def Buf_back_def Buf_store_def b_def)
qed

lemma buf1_new: "uint (c4 Globals_new AND 255) = Buf_back Globals_new 1"
  by (simp add: Globals_new_def Buf_back_def Buf_new_def)

lemma buf1_run:
  "uint (c4 (globals (Predictor_run MEM ys)) AND 255) = Buf_back (globals (Predictor_run MEM ys)) 1"
  unfolding globals_run
proof (induction ys rule: rev_induct)
  case Nil
  show ?case by (simp add: buf1_new)
next
  case (snoc y ys)
  then show ?case by (simp add: buf1_step)
qed

text \<open>
  C10. At a byte boundary (\<open>bpos = 0\<close>) of a run on bits, once a byte is committed and while
  no more bytes than the capacity of the buffer are written, the low 8 bits of \<open>c4\<close> are
  \<^verbatim>\<open>buf(1)\<close>; and every \<^verbatim>\<open>Predictor::update\<close> preserves this equality, from any state.
\<close>

theorem c4_low_byte_is_buf1:
  "(let g = globals (Predictor_run MEM ys)
    in set ys \<subseteq> {0, 1} \<and> bpos g = 0 \<and> 1 \<le> pos g \<and> pos g \<le> Buf_n (buf g)
       \<longrightarrow> uint (c4 g AND 255) = Buf_back g 1)
   \<and> (let g = globals s; g' = globals (Predictor_update y s)
      in uint (c4 g AND 255) = Buf_back g 1 \<longrightarrow> uint (c4 g' AND 255) = Buf_back g' 1)"
  by (simp add: Let_def buf1_run globals_update buf1_step)

theorem c4_low_byte_is_buf1_witness:
  "(let g = globals (Predictor_run 65536 [0, 1, 0, 0, 0, 0, 0, 1])
    in set [0, 1, 0, 0, 0, 0, 0, 1 :: int] \<subseteq> {0, 1} \<and> bpos g = 0 \<and> 1 \<le> pos g
       \<and> pos g \<le> Buf_n (buf g) \<and> uint (c4 g AND 255) = 65 \<and> Buf_back g 1 = 65)"
proof -
  have w: "(321 :: U8) = 65" by simp
  have g: "globals (Predictor_run 65536 [0, 1, 0, 0, 0, 0, 0, 1])
           = \<lparr>c0 = 1, c4 = 65, bpos = 0, pos = 1,
              buf = \<lparr>Buf_b = (\<lambda>_. 0)(0 := 65), Buf_n = 16777216\<rparr>\<rparr>"
    by (simp add: globals_run update_context_def Globals_new_def Let_def Buf_store_def Buf_new_def,
        simp only: w)
  show ?thesis
    using c4_low_byte_is_buf1 [of 65536 "[0, 1, 0, 0, 0, 0, 0, 1]"]
    by (simp add: Let_def g Buf_back_def)
qed

section \<open>The run model of ContextMap\<close>

lemma peek_poke_same: "peek (poke p v t) p = word_of_int v"
  by (simp add: peek_def poke_def)

lemma peek_poke_other: "p \<noteq> q \<Longrightarrow> peek (poke p v t) q = peek t q"
  by (cases p; cases q) (auto simp: peek_def poke_def)

lemma padd_neq: "padd r 1 \<noteq> r"
  by (cases r) (simp add: padd_def)

lemma mix1_run_bytes:
  "peek (CM_t (mix1_run c1 i cm)) (CM_runp cm i)
     = fst (run_update c1 (peek (CM_t cm) (CM_runp cm i), peek (CM_t cm) (padd (CM_runp cm i) 1)))
   \<and> peek (CM_t (mix1_run c1 i cm)) (padd (CM_runp cm i) 1)
     = snd (run_update c1 (peek (CM_t cm) (CM_runp cm i), peek (CM_t cm) (padd (CM_runp cm i) 1)))"
  by (simp add: mix1_run_def Let_def split_beta peek_poke_same peek_poke_other padd_neq)

lemma run_update_cases:
  fixes n b :: U8
  assumes "0 \<le> c1" "c1 < 256"
  shows "run_update c1 (n, b) = (n', b') \<Longrightarrow>
     (uint n = 0 \<longrightarrow> uint n' = 2 \<and> uint b' = c1)
   \<and> (uint n \<noteq> 0 \<and> uint b \<noteq> c1 \<longrightarrow> uint n' = 1 \<and> uint b' = c1)
   \<and> (uint n \<noteq> 0 \<and> uint b = c1 \<and> uint n < 254 \<longrightarrow> uint n' = uint n + 2 \<and> b' = b)
   \<and> (uint n = 254 \<and> uint b = c1 \<longrightarrow> uint n' = 254 \<and> b' = b)
   \<and> (uint n = 255 \<and> uint b = c1 \<longrightarrow> uint n' = 128 \<and> b' = b)"
proof -
  assume r: "run_update c1 (n, b) = (n', b')"
  have c: "uint (word_of_int c1 :: U8) = c1" using assms by (simp add: uint_word_of_int)
  have z: "(uint n = 0) = (n = 0)" by (simp add: uint_0_iff)
  have l: "(n < 254) = (uint n < 254)" by (simp add: word_less_def)
  have e: "(n = 255) = (uint n = 255)" using word_uint_eq_iff [of n 255] by simp
  have p: "uint n < 254 \<Longrightarrow> uint (n + 2) = uint n + 2"
    by (simp add: uint_word_ariths)
  have m: "uint n' \<le> 255" using uint_lt2p [of n'] by simp
  show ?thesis using r c p uint_lt2p [of n]
    by (auto simp: run_update_def z l e split: if_splits)
qed


text \<open>
  C8 (amended). At a byte boundary the run model of context \<open>i\<close>, the count \<open>n\<close> and the byte
  \<open>b\<close> under \<^verbatim>\<open>runp[i]\<close>, becomes \<open>(2, c1)\<close> in a new context (\<open>n = 0\<close>) and \<open>(1, c1)\<close> when
  \<open>b\<close> differs from \<open>c1\<close>; when \<open>b\<close> equals \<open>c1\<close> the count grows by 2 while it is below
  254, stays 254 at 254, and 255 becomes 128.
\<close>

theorem run_model_update:
  assumes "0 \<le> c1" and "c1 < 256"
  shows "let r = CM_runp cm i; t = CM_t cm; t' = CM_t (mix1_run c1 i cm);
             n = uint (peek t r); b = uint (peek t (padd r 1));
             n' = uint (peek t' r); b' = uint (peek t' (padd r 1))
         in (n = 0 \<longrightarrow> n' = 2 \<and> b' = c1)
          \<and> (n \<noteq> 0 \<and> b \<noteq> c1 \<longrightarrow> n' = 1 \<and> b' = c1)
          \<and> (n \<noteq> 0 \<and> b = c1 \<and> n < 254 \<longrightarrow> n' = n + 2 \<and> b' = b)
          \<and> (n = 254 \<and> b = c1 \<longrightarrow> n' = 254 \<and> b' = b)
          \<and> (n = 255 \<and> b = c1 \<longrightarrow> n' = 128 \<and> b' = b)"
proof -
  define r where "r = CM_runp cm i"
  define n where "n = peek (CM_t cm) r"
  define b where "b = peek (CM_t cm) (padd r 1)"
  obtain n' b' where u: "run_update c1 (n, b) = (n', b')" by fastforce
  have 1: "peek (CM_t (mix1_run c1 i cm)) r = n'"
    and 2: "peek (CM_t (mix1_run c1 i cm)) (padd r 1) = b'"
    using mix1_run_bytes [of c1 i cm] u by (simp_all add: r_def n_def b_def)
  show ?thesis
    unfolding Let_def r_def [symmetric] n_def [symmetric] b_def [symmetric] 1 2
    using run_update_cases [OF assms u] by blast
qed

theorem run_model_update_witness:
  "(0::int) \<le> 65 \<and> (65::int) < 256
   \<and> uint (peek (CM_t (mix1_run 65 0
              ((ContextMap_new 4096 1)\<lparr>CM_t := poke (0, 4) 65 (poke (0, 3) 253
                                              (CM_t (ContextMap_new 4096 1)))\<rparr>))) (0, 3)) = 255"
  using run_model_update [of 65 "(ContextMap_new 4096 1)\<lparr>CM_t := poke (0, 4) 65 (poke (0, 3) 253
                                              (CM_t (ContextMap_new 4096 1)))\<rparr>" 0]
  by (simp add: Let_def ContextMap_new_def peek_def poke_def padd_def)

text \<open>
  The claim as stated fails at the count 254, which 127 updates with the same byte reach
  from a new context: one more update with that byte leaves the count at 254, neither 2
  higher nor 128.
\<close>

theorem run_model_update_counterexample:
  "(run_update 65 ^^ 127) (0, 0) = (254, 65) \<and> run_update 65 (254, 65) = (254, 65)
   \<and> uint (fst (run_update 65 (254, 65))) \<noteq> 254 + 2 \<and> fst (run_update 65 (254, 65)) \<noteq> 128"
  by code_simp

section \<open>StateMap under a constant bit\<close>

text \<open>The calls of the claim: the values returned by \<open>n\<close> calls \<^verbatim>\<open>p(cx)\<close> under a constant bit.\<close>

primrec StateMap_calls :: "int \<Rightarrow> int \<Rightarrow> nat \<Rightarrow> StateMap \<Rightarrow> int list" where
  "StateMap_calls y cx 0 sm = []"
| "StateMap_calls y cx (Suc n) sm =
     fst (StateMap_p y cx sm) # StateMap_calls y cx n (snd (StateMap_p y cx sm))"

text \<open>The training step on the value of a 16-bit entry, for the bit 1 and for the bit 0.\<close>

definition sm_up :: "int \<Rightarrow> int" where
  "sm_up u = u + (65664 - u) div 256"

definition sm_down :: "int \<Rightarrow> int" where
  "sm_down u = u + (128 - u) div 256"

lemma div256:
  fixes x :: int
  shows "256 * (x div 256) \<le> x" and "x < 256 * (x div 256) + 256"
proof -
  have "0 \<le> x mod 256" "x mod 256 < 256" by simp_all
  moreover have "x = 256 * (x div 256) + x mod 256" by simp
  ultimately show "256 * (x div 256) \<le> x" and "x < 256 * (x div 256) + 256" by linarith+
qed

lemma funpow_num: "(f ^^ numeral k) x = f ((f ^^ pred_numeral k) x)"
  by (simp add: numeral_eq_Suc)

lemma train1_uint: "uint (StateMap_train 1 v) = sm_up (uint v)"
proof -
  define u where "u = uint v"
  define d where "d = (65664 - u) div 256"
  have ub: "0 \<le> u" "u \<le> 65535" using uint_lt2p [of v] by (simp_all add: u_def)
  have "256 * d \<le> 65664 - u" "65664 - u < 256 * d + 256"
    unfolding d_def using div256 [of "65664 - u"] by simp_all
  with ub have db: "0 \<le> u + d" "u + d < 65536" by linarith+
  have "StateMap_train 1 v = v + word_of_int d"
    by (simp add: StateMap_train_def drop_bit_eq_div d_def u_def)
  then have "uint (StateMap_train 1 v) = (u + d) mod 65536"
    by (simp add: uint_word_ariths uint_word_of_int u_def mod_simps)
  with db show ?thesis by (simp add: sm_up_def d_def u_def)
qed

lemma train0_uint: "uint (StateMap_train 0 v) = sm_down (uint v)"
proof -
  define u where "u = uint v"
  define d where "d = (128 - u) div 256"
  have ub: "0 \<le> u" "u \<le> 65535" using uint_lt2p [of v] by (simp_all add: u_def)
  have "256 * d \<le> 128 - u" "128 - u < 256 * d + 256"
    unfolding d_def using div256 [of "128 - u"] by simp_all
  with ub have db: "0 \<le> u + d" "u + d < 65536" by linarith+
  have "StateMap_train 0 v = v + word_of_int d"
    by (simp add: StateMap_train_def drop_bit_eq_div d_def u_def)
  then have "uint (StateMap_train 0 v) = (u + d) mod 65536"
    by (simp add: uint_word_ariths uint_word_of_int u_def mod_simps)
  with db show ?thesis by (simp add: sm_down_def d_def u_def)
qed

lemma sm_up_props:
  assumes "0 \<le> u" "u \<le> 65535"
  shows "u \<le> sm_up u" "sm_up u \<le> 65535" "0 \<le> sm_up u"
proof -
  define d where "d = (65664 - u) div 256"
  have "256 * d \<le> 65664 - u" "65664 - u < 256 * d + 256"
    unfolding d_def using div256 [of "65664 - u"] by simp_all
  with assms show "u \<le> sm_up u" "sm_up u \<le> 65535" "0 \<le> sm_up u"
    unfolding sm_up_def d_def [symmetric] by linarith+
qed

lemma sm_down_props:
  assumes "0 \<le> u" "u \<le> 65535"
  shows "sm_down u \<le> u" "sm_down u \<le> 65535" "0 \<le> sm_down u"
proof -
  define d where "d = (128 - u) div 256"
  have "256 * d \<le> 128 - u" "128 - u < 256 * d + 256"
    unfolding d_def using div256 [of "128 - u"] by simp_all
  with assms show "sm_down u \<le> u" "sm_down u \<le> 65535" "0 \<le> sm_down u"
    unfolding sm_down_def d_def [symmetric] by linarith+
qed

lemma sm_up_mono: "u \<le> v \<Longrightarrow> sm_up u \<le> sm_up v"
proof -
  assume "u \<le> v"
  define d where "d = (65664 - u) div 256"
  define e where "e = (65664 - v) div 256"
  have "256 * d \<le> 65664 - u" "65664 - u < 256 * d + 256"
    unfolding d_def using div256 [of "65664 - u"] by simp_all
  moreover have "256 * e \<le> 65664 - v" "65664 - v < 256 * e + 256"
    unfolding e_def using div256 [of "65664 - v"] by simp_all
  ultimately show ?thesis using \<open>u \<le> v\<close> unfolding sm_up_def d_def [symmetric] e_def [symmetric]
    by linarith
qed

lemma sm_down_mono: "u \<le> v \<Longrightarrow> sm_down u \<le> sm_down v"
proof -
  assume "u \<le> v"
  define d where "d = (128 - u) div 256"
  define e where "e = (128 - v) div 256"
  have "256 * d \<le> 128 - u" "128 - u < 256 * d + 256"
    unfolding d_def using div256 [of "128 - u"] by simp_all
  moreover have "256 * e \<le> 128 - v" "128 - v < 256 * e + 256"
    unfolding e_def using div256 [of "128 - v"] by simp_all
  ultimately show ?thesis using \<open>u \<le> v\<close> unfolding sm_down_def d_def [symmetric] e_def [symmetric]
    by linarith
qed

lemma sm_up_1565: "(sm_up ^^ 1565) 0 = 65409"
  by (simp add: funpow_num sm_up_def)

lemma sm_down_1565: "(sm_down ^^ 1565) 65535 = 128"
  by (simp add: funpow_num sm_down_def)


lemma train1_pow: "uint ((StateMap_train 1 ^^ k) v) = (sm_up ^^ k) (uint v)"
  by (induction k) (simp_all add: train1_uint)

lemma train0_pow: "uint ((StateMap_train 0 ^^ k) v) = (sm_down ^^ k) (uint v)"
  by (induction k) (simp_all add: train0_uint)

lemma sm_up_pow_range:
  assumes "0 \<le> u" "u \<le> 65535"
  shows "0 \<le> (sm_up ^^ k) u \<and> (sm_up ^^ k) u \<le> 65535"
  using assms by (induction k) (simp_all add: sm_up_props)

lemma sm_down_pow_range:
  assumes "0 \<le> u" "u \<le> 65535"
  shows "0 \<le> (sm_down ^^ k) u \<and> (sm_down ^^ k) u \<le> 65535"
  using assms by (induction k) (simp_all add: sm_down_props)

lemma sm_up_pow_le:
  assumes "0 \<le> u" "u \<le> 65535" "i \<le> j"
  shows "(sm_up ^^ i) u \<le> (sm_up ^^ j) u"
proof -
  have "(sm_up ^^ i) u \<le> (sm_up ^^ (i + d)) u" for d
  proof (induction d)
    case 0
    show ?case by simp
  next
    case (Suc d)
    have "(sm_up ^^ (i + d)) u \<le> sm_up ((sm_up ^^ (i + d)) u)"
      using sm_up_pow_range [OF assms(1,2), of "i + d"] by (simp add: sm_up_props)
    with Suc show ?case by simp
  qed
  from this [of "j - i"] assms(3) show ?thesis by simp
qed

lemma sm_down_pow_le:
  assumes "0 \<le> u" "u \<le> 65535" "i \<le> j"
  shows "(sm_down ^^ j) u \<le> (sm_down ^^ i) u"
proof -
  have "(sm_down ^^ (i + d)) u \<le> (sm_down ^^ i) u" for d
  proof (induction d)
    case 0
    show ?case by simp
  next
    case (Suc d)
    have "sm_down ((sm_down ^^ (i + d)) u) \<le> (sm_down ^^ (i + d)) u"
      using sm_down_pow_range [OF assms(1,2), of "i + d"] by (simp add: sm_down_props)
    with Suc show ?case by simp
  qed
  from this [of "j - i"] assms(3) show ?thesis by simp
qed

lemma sm_up_pow_mono: "u \<le> v \<Longrightarrow> (sm_up ^^ k) u \<le> (sm_up ^^ k) v"
  by (induction k) (simp_all add: sm_up_mono)

lemma sm_down_pow_mono: "u \<le> v \<Longrightarrow> (sm_down ^^ k) u \<le> (sm_down ^^ k) v"
  by (induction k) (simp_all add: sm_down_mono)

lemma sm_up_limit:
  assumes "0 \<le> u" "u \<le> 65535" "1565 \<le> k"
  shows "65409 \<le> (sm_up ^^ k) u"
proof -
  have "65409 \<le> (sm_up ^^ 1565) u"
    using sm_up_pow_mono [OF assms(1), of 1565] by (simp only: sm_up_1565)
  also have "\<dots> \<le> (sm_up ^^ k) u" using assms by (rule sm_up_pow_le)
  finally show ?thesis .
qed

lemma sm_down_limit:
  assumes "0 \<le> u" "u \<le> 65535" "1565 \<le> k"
  shows "(sm_down ^^ k) u \<le> 128"
proof -
  have "(sm_down ^^ k) u \<le> (sm_down ^^ 1565) u" using assms by (rule sm_down_pow_le)
  also have "\<dots> \<le> 128"
    using sm_down_pow_mono [OF assms(2), of 1565] by (simp only: sm_down_1565)
  finally show ?thesis .
qed

lemma StateMap_p_snd:
  "StateMap_cxt (snd (StateMap_p y cx sm)) = cx"
  "StateMap_cxt sm = cx \<Longrightarrow>
     StateMap_t (snd (StateMap_p y cx sm)) (nat cx) = StateMap_train y (StateMap_t sm (nat cx))"
  "fst (StateMap_p y cx sm) = drop_bit 4 (uint (StateMap_t (snd (StateMap_p y cx sm)) (nat cx)))"
  by (simp_all add: StateMap_p_def Let_def)

lemma calls_in_context:
  "StateMap_cxt sm = cx \<Longrightarrow>
   StateMap_calls y cx n sm
     = map (\<lambda>k. drop_bit 4 (uint ((StateMap_train y ^^ Suc k) (StateMap_t sm (nat cx))))) [0..<n]"
proof (induction n arbitrary: sm)
  case 0
  show ?case by simp
next
  case (Suc n)
  let ?s = "snd (StateMap_p y cx sm)"
  have c: "StateMap_cxt ?s = cx" by (rule StateMap_p_snd)
  have t: "StateMap_t ?s (nat cx) = StateMap_train y (StateMap_t sm (nat cx))"
    using Suc.prems by (rule StateMap_p_snd)
  have u: "[0..<Suc n] = 0 # map Suc [0..<n]"
    by (simp add: upt_conv_Cons map_Suc_upt del: upt_Suc)
  show ?case
    unfolding u StateMap_calls.simps Suc.IH [OF c] StateMap_p_snd(3) t
    by (simp add: funpow_swap1 comp_def del: upt_Suc)
qed

lemma calls_nth:
  assumes "k < n"
  shows "StateMap_calls y cx n sm ! k
         = drop_bit 4 (uint ((StateMap_train y ^^ k) (StateMap_t (snd (StateMap_p y cx sm)) (nat cx))))"
    and "length (StateMap_calls y cx n sm) = n"
proof -
  let ?s = "snd (StateMap_p y cx sm)"
  have c: "StateMap_cxt ?s = cx" by (rule StateMap_p_snd)
  have u: "[0..<Suc m] = 0 # map Suc [0..<m]" for m
    by (simp add: upt_conv_Cons map_Suc_upt del: upt_Suc)
  have e: "StateMap_calls y cx n sm
           = map (\<lambda>k. drop_bit 4 (uint ((StateMap_train y ^^ k) (StateMap_t ?s (nat cx))))) [0..<n]"
  proof (cases n)
    case 0
    then show ?thesis by simp
  next
    case (Suc m)
    show ?thesis
      unfolding Suc u StateMap_calls.simps calls_in_context [OF c] StateMap_p_snd(3)
      by (simp add: comp_def del: upt_Suc funpow.simps)
  qed
  show "StateMap_calls y cx n sm ! k
         = drop_bit 4 (uint ((StateMap_train y ^^ k) (StateMap_t ?s (nat cx))))"
    unfolding e using assms by simp
  show "length (StateMap_calls y cx n sm) = n" unfolding e by simp
qed


text \<open>
  C9. For a context \<open>cx\<close>, the values returned by \<open>n\<close> calls \<^verbatim>\<open>p(cx)\<close> of a state map in any
  state, with the bit \<open>y\<close> held at 1, are non-decreasing and in \<open>[0, 4095]\<close>, and from the
  call of index 1565 on they are at least 4088: the 16-bit entry grows by
  \<open>(65536 - t + 128) >> 8\<close> until this increment is 0, at 65409 or above. With \<open>y\<close> held at
  0 the values are non-increasing, and from the call of index 1565 on at most 8.
\<close>

theorem StateMap_constant_bit:
  assumes "0 \<le> cx" and "cx < 256"
  shows "(let ps = StateMap_calls 1 cx n sm
          in length ps = n \<and> sorted ps
           \<and> (\<forall>k<n. 0 \<le> ps ! k \<and> ps ! k \<le> 4095 \<and> (1565 \<le> k \<longrightarrow> 4088 \<le> ps ! k)))
       \<and> (let ps = StateMap_calls 0 cx n sm
          in length ps = n \<and> sorted (rev ps)
           \<and> (\<forall>k<n. 0 \<le> ps ! k \<and> ps ! k \<le> 4095 \<and> (1565 \<le> k \<longrightarrow> ps ! k \<le> 8)))"
proof -
  define v1 where "v1 = uint (StateMap_t (snd (StateMap_p 1 cx sm)) (nat cx))"
  define v0 where "v0 = uint (StateMap_t (snd (StateMap_p 0 cx sm)) (nat cx))"
  have b1: "0 \<le> v1" "v1 \<le> 65535"
    using uint_lt2p [of "StateMap_t (snd (StateMap_p 1 cx sm)) (nat cx)"] by (simp_all add: v1_def)
  have b0: "0 \<le> v0" "v0 \<le> 65535"
    using uint_lt2p [of "StateMap_t (snd (StateMap_p 0 cx sm)) (nat cx)"] by (simp_all add: v0_def)
  have n1: "StateMap_calls 1 cx n sm ! k = (sm_up ^^ k) v1 div 16" if "k < n" for k
    using calls_nth(1) [OF that, of 1 cx sm] by (simp add: train1_pow v1_def drop_bit_eq_div)
  have n0: "StateMap_calls 0 cx n sm ! k = (sm_down ^^ k) v0 div 16" if "k < n" for k
    using calls_nth(1) [OF that, of 0 cx sm] by (simp add: train0_pow v0_def drop_bit_eq_div)
  have len: "length (StateMap_calls y cx n sm) = n" for y
  proof (cases n)
    case 0
    then show ?thesis by simp
  next
    case (Suc m)
    then show ?thesis using calls_nth(2) [of 0 n y cx sm] by simp
  qed
  have s1: "sorted (StateMap_calls 1 cx n sm)"
    unfolding sorted_iff_nth_mono len
  proof (intro allI impI)
    fix i j assume "i \<le> j" "j < n"
    then have "(sm_up ^^ i) v1 \<le> (sm_up ^^ j) v1" using b1 by (simp add: sm_up_pow_le)
    then have "(sm_up ^^ i) v1 div 16 \<le> (sm_up ^^ j) v1 div 16" by (rule zdiv_mono1) simp
    then show "StateMap_calls 1 cx n sm ! i \<le> StateMap_calls 1 cx n sm ! j"
      using \<open>i \<le> j\<close> \<open>j < n\<close> by (simp add: n1)
  qed
  have s0: "sorted (rev (StateMap_calls 0 cx n sm))"
    unfolding sorted_rev_iff_nth_mono len
  proof (intro allI impI)
    fix i j assume "i \<le> j" "j < n"
    then have "(sm_down ^^ j) v0 \<le> (sm_down ^^ i) v0" using b0 by (simp add: sm_down_pow_le)
    then have "(sm_down ^^ j) v0 div 16 \<le> (sm_down ^^ i) v0 div 16" by (rule zdiv_mono1) simp
    then show "StateMap_calls 0 cx n sm ! j \<le> StateMap_calls 0 cx n sm ! i"
      using \<open>i \<le> j\<close> \<open>j < n\<close> by (simp add: n0)
  qed
  have r1: "0 \<le> StateMap_calls 1 cx n sm ! k \<and> StateMap_calls 1 cx n sm ! k \<le> 4095
            \<and> (1565 \<le> k \<longrightarrow> 4088 \<le> StateMap_calls 1 cx n sm ! k)" if "k < n" for k
  proof -
    have "0 \<le> (sm_up ^^ k) v1" "(sm_up ^^ k) v1 \<le> 65535"
      using sm_up_pow_range [OF b1, of k] by simp_all
    then have "0 \<le> (sm_up ^^ k) v1 div 16 \<and> (sm_up ^^ k) v1 div 16 \<le> 65535 div 16"
      by (intro div_bounds) simp_all
    moreover have "65409 div 16 \<le> (sm_up ^^ k) v1 div 16" if "1565 \<le> k"
      using sm_up_limit [OF b1 that] by (rule zdiv_mono1) simp
    ultimately show ?thesis using that by (simp add: n1)
  qed
  have r0: "0 \<le> StateMap_calls 0 cx n sm ! k \<and> StateMap_calls 0 cx n sm ! k \<le> 4095
            \<and> (1565 \<le> k \<longrightarrow> StateMap_calls 0 cx n sm ! k \<le> 8)" if "k < n" for k
  proof -
    have "0 \<le> (sm_down ^^ k) v0" "(sm_down ^^ k) v0 \<le> 65535"
      using sm_down_pow_range [OF b0, of k] by simp_all
    then have "0 \<le> (sm_down ^^ k) v0 div 16 \<and> (sm_down ^^ k) v0 div 16 \<le> 65535 div 16"
      by (intro div_bounds) simp_all
    moreover have "(sm_down ^^ k) v0 div 16 \<le> 128 div 16" if "1565 \<le> k"
      using sm_down_limit [OF b0 that] by (rule zdiv_mono1) simp
    ultimately show ?thesis using that by (simp add: n0)
  qed
  show ?thesis unfolding Let_def using len s1 s0 r1 r0 by blast
qed


lemma StateMap_new_0: "StateMap_t StateMap_new 0 = 32768" "StateMap_cxt StateMap_new = 0"
  by (simp_all add: StateMap_new_def StateMap_init_def nex_def State_table_def)

lemma StateMap_first:
  "uint (StateMap_t (snd (StateMap_p 1 0 StateMap_new)) (nat 0)) = 32896"
  "uint (StateMap_t (snd (StateMap_p 0 0 StateMap_new)) (nat 0)) = 32640"
proof -
  have "StateMap_t (snd (StateMap_p y 0 StateMap_new)) 0 = StateMap_train y 32768" for y
    by (simp add: StateMap_p_def Let_def StateMap_new_0)
  then show "uint (StateMap_t (snd (StateMap_p 1 0 StateMap_new)) (nat 0)) = 32896"
    and "uint (StateMap_t (snd (StateMap_p 0 0 StateMap_new)) (nat 0)) = 32640"
    by (simp_all add: train1_uint train0_uint sm_up_def sm_down_def)
qed

theorem StateMap_constant_bit_witness:
  "(0::int) \<le> 0 \<and> (0::int) < 256
   \<and> StateMap_calls 1 0 1566 StateMap_new ! 0 = 2056
   \<and> StateMap_calls 1 0 1566 StateMap_new ! 1 = 2064
   \<and> StateMap_calls 1 0 1566 StateMap_new ! 1565 = 4088
   \<and> StateMap_calls 0 0 1566 StateMap_new ! 0 = 2040
   \<and> StateMap_calls 0 0 1566 StateMap_new ! 1 = 2032
   \<and> StateMap_calls 0 0 1566 StateMap_new ! 1565 = 8
   \<and> sorted (StateMap_calls 1 0 1566 StateMap_new)
   \<and> sorted (rev (StateMap_calls 0 0 1566 StateMap_new))"
proof -
  have 1: "StateMap_calls 1 0 1566 StateMap_new ! k = (sm_up ^^ k) 32896 div 16" if "k < 1566" for k
    using calls_nth(1) [OF that, of 1 0 StateMap_new]
    by (simp only: train1_pow StateMap_first drop_bit_eq_div) simp
  have 0: "StateMap_calls 0 0 1566 StateMap_new ! k = (sm_down ^^ k) 32640 div 16" if "k < 1566" for k
    using calls_nth(1) [OF that, of 0 0 StateMap_new]
    by (simp only: train0_pow StateMap_first drop_bit_eq_div) simp
  have u: "(sm_up ^^ 1565) 32896 = 65409" by (simp add: funpow_num sm_up_def)
  have d: "(sm_down ^^ 1565) 32640 = 128" by (simp add: funpow_num sm_down_def)
  have v: "sm_up 32896 = 33024" "sm_down 32640 = 32513"
    by (simp_all add: sm_up_def sm_down_def)
  show ?thesis
    using StateMap_constant_bit [of 0 1566 StateMap_new]
    by (simp add: Let_def 1 0 u d v)
qed

section \<open>The weights of the mixer\<close>

lemma and_m8_int: "(x::int) AND (- 8) = x - x mod 8"
proof -
  have "x AND NOT (mask 3) = push_bit 3 (drop_bit 3 x)"
    by (rule bit_eqI) (auto simp: bit_simps)
  then have "x AND NOT (mask 3) = x div 8 * 8"
    by (simp add: push_bit_eq_mult drop_bit_eq_div)
  moreover have "NOT (mask 3) = (- 8 :: int)" by (simp add: mask_eq_exp_minus_1 not_int_def)
  ultimately have "x AND - 8 = x div 8 * 8" by simp
  then show ?thesis by (simp add: minus_mod_eq_div_mult)
qed

lemma round8_eq: "round8 n = n + 7 - (n + 7) mod 8"
proof -
  have "int (round8 n) = int (n + 7) - int (n + 7) mod 8"
    by (simp add: round8_def and_m8_int)
  also have "\<dots> = int (n + 7 - (n + 7) mod 8)"
    by (simp add: of_nat_diff zmod_int)
  finally show ?thesis by (simp only: of_nat_eq_iff)
qed

lemma train_wt_range: "- 32768 \<le> train_wt ti wi err \<and> train_wt ti wi err \<le> 32767"
  by (simp add: train_wt_def Let_def)

lemma sint_short: "- 32768 \<le> x \<Longrightarrow> x \<le> 32767 \<Longrightarrow> sint (word_of_int x :: short) = x"
  by (simp add: sint_sbintrunc' signed_take_bit_int_eq_self)

lemma train_fold:
  "fold (\<lambda>i w. w(off + i := word_of_int (train_wt (sint (t i)) (sint (w (off + i))) err))) [0..<m] w k
   = (if off \<le> k \<and> k < off + m
      then word_of_int (train_wt (sint (t (k - off))) (sint (w k)) err) else w k)"
proof (induction m)
  case 0
  show ?case by auto
next
  case (Suc m)
  show ?case
  proof (cases "k = off + m")
    case True
    then show ?thesis using Suc by simp
  next
    case False
    then show ?thesis using Suc by auto
  qed
qed

lemma train_entry:
  "train t w off n err k
   = (if off \<le> k \<and> k < off + round8 n
      then word_of_int (train_wt (sint (t (k - off))) (sint (w k)) err) else w k)"
  unfolding train_def by (rule train_fold)

lemma train_sint:
  "sint (train t w off n err k)
   = (if off \<le> k \<and> k < off + round8 n
      then train_wt (sint (t (k - off))) (sint (w k)) err else sint (w k))"
  using train_wt_range [of "sint (t (k - off))" "sint (w k)" err]
  by (simp add: train_entry sint_short)


text \<open>
  C5 (amended). After \<^verbatim>\<open>Mixer::update\<close> every weight of \<^verbatim>\<open>wx\<close> is in \<open>[-32768, 32767]\<close>; and
  \<^verbatim>\<open>train\<close> leaves a weight outside \<open>off .. off + n - 1\<close> (\<open>n\<close> rounded up to a multiple of 8) as
  it is and replaces a weight \<open>w\<close> inside by \<open>w + ((t * err * 2 >> 16) + 1 >> 1)\<close> clamped to
  \<open>[-32768, 32767]\<close>, which the 16-bit store does not change.
\<close>

theorem Mixer_weights_clamped:
  "(\<forall>k. - 32768 \<le> sint (Mixer_wx (Mixer_fields (Mixer_update y m)) k)
        \<and> sint (Mixer_wx (Mixer_fields (Mixer_update y m)) k) \<le> 32767)
   \<and> (\<forall>k. sint (train t w off n err k)
          = (if off \<le> k \<and> k < off + round8 n
             then max (- 32768) (min 32767
                    (sint (w k) + drop_bit 1 (drop_bit 16 (sint (t (k - off)) * err * 2) + 1)))
             else sint (w k)))"
proof -
  have "- 32768 \<le> sint x \<and> sint x \<le> 32767" for x :: short
    using sint_ge [of x] sint_lt [of x] by simp
  moreover have "train_wt ti wi e = max (- 32768) (min 32767 (wi + drop_bit 1 (drop_bit 16 (ti * e * 2) + 1)))"
    for ti wi e
    by (simp add: train_wt_def Let_def max_def min_def)
  ultimately show ?thesis by (simp add: train_sint)
qed


lemma r8: "round8 8 = 8" "round8 1 = 8"
  by (simp_all add: round8_eq)

lemma cex_m3:
  "Mixer_set 0 1 (Mixer_add (- 2047) (Mixer_new 8 1 1 (- 32767)))
   = Mixer \<lparr>Mixer_N = 8, Mixer_M = 1, Mixer_S = 1, Mixer_tx = (\<lambda>_. 0)(0 := - 2047),
       Mixer_wx = (\<lambda>i. if i < 8 then word_of_int (- 32767) else 0), Mixer_cxt = (\<lambda>_. 0)(0 := 0),
       Mixer_ncxt = 1, Mixer_base = 1, Mixer_nx = 1,
       Mixer_pr = (\<lambda>i. if i < 1 then 2048 else 0)\<rparr> None"
  by (simp add: Mixer_new_def core_new_def core_add_def core_set_def r8)

lemma cex_pad:
  "core_pad \<lparr>Mixer_N = 8, Mixer_M = 1, Mixer_S = 1, Mixer_tx = (\<lambda>_. 0)(0 := - 2047),
       Mixer_wx = (\<lambda>i. if i < 8 then word_of_int (- 32767) else 0), Mixer_cxt = (\<lambda>_. 0)(0 := 0),
       Mixer_ncxt = 1, Mixer_base = 1, Mixer_nx = 1,
       Mixer_pr = (\<lambda>i. if i < 1 then 2048 else 0)\<rparr>
   = \<lparr>Mixer_N = 8, Mixer_M = 1, Mixer_S = 1, Mixer_tx = (\<lambda>_. 0)(0 := - 2047),
       Mixer_wx = (\<lambda>i. if i < 8 then word_of_int (- 32767) else 0), Mixer_cxt = (\<lambda>_. 0)(0 := 0),
       Mixer_ncxt = 1, Mixer_base = 1, Mixer_nx = 8,
       Mixer_pr = (\<lambda>i. if i < 1 then 2048 else 0)\<rparr>"
  by (simp add: core_pad.simps core_add_def fun_eq_iff)


lemma upt4: "[0..<4] = [0, 1, 2, 3::nat]"
  by (simp add: upt_rec)

lemma cex_p:
  "Mixer_p 1 (Mixer_set 0 1 (Mixer_add (- 2047) (Mixer_new 8 1 1 (- 32767))))
   = (4022, Mixer \<lparr>Mixer_N = 8, Mixer_M = 1, Mixer_S = 1, Mixer_tx = (\<lambda>_. 0)(0 := - 2047),
       Mixer_wx = (\<lambda>i. if i < 8 then word_of_int (- 32767) else 0), Mixer_cxt = (\<lambda>_. 0)(0 := 0),
       Mixer_ncxt = 1, Mixer_base = 1, Mixer_nx = 8,
       Mixer_pr = (\<lambda>i. if i < 1 then 2048 else 0)(0 := 4022)\<rparr> None)"
proof -
  have s: "sint (word_of_int (- 32767) :: short) = - 32767" "sint (- 2047 :: short) = - 2047"
    by (simp_all add: sint_short)
  have d: "dot_product ((\<lambda>_. 0)(0 := - 2047)) (\<lambda>i. if i < 8 then word_of_int (- 32767) else 0) 0 8
           = 262008"
    by (simp add: dot_product_def r8 upt4 s drop_bit_eq_div)
  have q: "squash 1023 = 4022"
    by (simp add: squash_def squash_t_def and_127_int drop_bit_eq_div)
  show ?thesis
    unfolding cex_m3 Mixer_p.simps cex_pad Let_def
    by (simp add: d q drop_bit_eq_div)
qed

text \<open>
  The claim as stated, \<open>|w| \<le> 32767\<close>, fails: the lower clamp is \<open>-32768\<close>. A mixer of 8
  inputs with initial weights \<open>-32767\<close> that is given the input \<open>-2047\<close> predicts 4022; the
  update for the bit 1 has \<open>err = 518\<close> and moves weight 0 by \<open>-16\<close>, to the clamp.
\<close>

theorem Mixer_weights_counterexample:
  "sint (Mixer_wx (Mixer_fields (Mixer_update 1 (snd (Mixer_p 1 (Mixer_set 0 1
       (Mixer_add (- 2047) (Mixer_new 8 1 1 (- 32767)))))))) 0) = - 32768
   \<and> \<not> \<bar>sint (Mixer_wx (Mixer_fields (Mixer_update 1 (snd (Mixer_p 1 (Mixer_set 0 1
       (Mixer_add (- 2047) (Mixer_new 8 1 1 (- 32767)))))))) 0)\<bar> \<le> 32767"
proof -
  have s: "sint (word_of_int (- 32767) :: short) = - 32767" "sint (- 2047 :: short) = - 2047"
    by (simp_all add: sint_short)
  show ?thesis
    unfolding cex_p
    by (simp add: core_update_def train_sint r8 s Mixer_err_def train_wt_def drop_bit_eq_div)
qed

section \<open>Squash and stretch as inverses\<close>

lemma squash_t_diff:
  assumes "k < 32"
  shows "1 \<le> squash_t ! (k + 1) - squash_t ! k" and "squash_t ! (k + 1) - squash_t ! k \<le> 511"
proof -
  define ds where "ds = map2 (\<lambda>a b. a - b) (tl squash_t) squash_t"
  have l: "length ds = 32" by (simp add: ds_def squash_t_def)
  have "\<forall>x \<in> set ds. 1 \<le> x \<and> x \<le> 511" by (simp add: ds_def squash_t_def)
  moreover have "ds ! k \<in> set ds" using assms l by simp
  moreover have "ds ! k = squash_t ! (k + 1) - squash_t ! k"
    using assms by (simp add: ds_def squash_t_length nth_tl)
  ultimately show "1 \<le> squash_t ! (k + 1) - squash_t ! k"
    and "squash_t ! (k + 1) - squash_t ! k \<le> 511" by auto
qed

lemma squash_t_mono: "i \<le> j \<Longrightarrow> j \<le> 32 \<Longrightarrow> squash_t ! i \<le> squash_t ! j"
proof (induction j)
  case 0
  then show ?case by simp
next
  case (Suc j)
  show ?case
  proof (cases "i = Suc j")
    case True
    then show ?thesis by simp
  next
    case False
    with Suc have "squash_t ! i \<le> squash_t ! j" by simp
    moreover have "squash_t ! j \<le> squash_t ! Suc j"
      using squash_t_diff(1) [of j] Suc.prems by simp
    ultimately show ?thesis by simp
  qed
qed

text \<open>The segment \<open>k\<close> and the weight \<open>w\<close> of an argument of squash.\<close>

lemma squash_seg:
  assumes "- 2047 \<le> d" "d \<le> 2047"
  obtains k w where "k < 32" "0 \<le> w" "w < 128" "d = 128 * (int k - 16) + w"
    "squash d = squash_t ! k + (w * (squash_t ! (k + 1) - squash_t ! k) + 64) div 128"
proof -
  define k where "k = nat (d div 128 + 16)"
  define w where "w = d mod 128"
  have dv: "- 16 \<le> d div 128" "d div 128 \<le> 15" using assms by presburger+
  then have kb: "k < 32" unfolding k_def by simp
  have k1: "nat (d div 128 + 17) = k + 1" using dv unfolding k_def by simp
  have ik: "int k = d div 128 + 16" using dv unfolding k_def by simp
  have wb: "0 \<le> w" "w < 128" unfolding w_def by simp_all
  have d: "d = 128 * (int k - 16) + w" unfolding ik w_def by simp
  have "squash d = (squash_t ! k * (128 - w) + squash_t ! (k + 1) * w + 64) div 128"
    using squash_mid [of d] assms k1 by (simp add: k_def w_def)
  also have "squash_t ! k * (128 - w) + squash_t ! (k + 1) * w + 64
             = w * (squash_t ! (k + 1) - squash_t ! k) + 64 + squash_t ! k * 128"
    by (simp add: algebra_simps)
  also have "\<dots> div 128 = (w * (squash_t ! (k + 1) - squash_t ! k) + 64) div 128 + squash_t ! k"
    by simp
  finally have "squash d = squash_t ! k + (w * (squash_t ! (k + 1) - squash_t ! k) + 64) div 128"
    by simp
  with kb wb d show ?thesis by (rule that)
qed


lemma div128:
  fixes x :: int
  shows "128 * (x div 128) \<le> x" and "x < 128 * (x div 128) + 128"
proof -
  have "0 \<le> x mod 128" "x mod 128 < 128" by simp_all
  moreover have "x = 128 * (x div 128) + x mod 128" by simp
  ultimately show "128 * (x div 128) \<le> x" and "x < 128 * (x div 128) + 128" by linarith+
qed

lemma seg_unique:
  fixes p q w v :: int
  assumes "x = 128 * p + w" "0 \<le> w" "w < 128" "x = 128 * q + v" "0 \<le> v" "v < 128"
  shows "p = q" and "w = v"
proof -
  have "x div 128 = p" "x mod 128 = w"
    using assms(1-3) by (rule int_div_pos_eq, rule int_mod_pos_eq)
  moreover have "x div 128 = q" "x mod 128 = v"
    using assms(4-6) by (rule int_div_pos_eq, rule int_mod_pos_eq)
  ultimately show "p = q" and "w = v" by simp_all
qed

lemma squash_mono:
  assumes "- 2047 \<le> a" "a \<le> b" "b \<le> 2047"
  shows "squash a \<le> squash b"
proof -
  from assms have ra: "- 2047 \<le> a" "a \<le> 2047" and rb: "- 2047 \<le> b" "b \<le> 2047" by simp_all
  from ra obtain k w where a: "k < 32" "0 \<le> w" "w < 128" "a = 128 * (int k - 16) + w"
    "squash a = squash_t ! k + (w * (squash_t ! (k + 1) - squash_t ! k) + 64) div 128"
    by (rule squash_seg)
  from rb obtain l v where b: "l < 32" "0 \<le> v" "v < 128" "b = 128 * (int l - 16) + v"
    "squash b = squash_t ! l + (v * (squash_t ! (l + 1) - squash_t ! l) + 64) div 128"
    by (rule squash_seg)
  define D where "D = squash_t ! (k + 1) - squash_t ! k"
  define E where "E = squash_t ! (l + 1) - squash_t ! l"
  have D: "1 \<le> D" unfolding D_def using a(1) by (rule squash_t_diff)
  have E: "1 \<le> E" unfolding E_def using b(1) by (rule squash_t_diff)
  have "a div 128 = int k - 16" using a(4) a(2) a(3) by (rule int_div_pos_eq)
  moreover have "b div 128 = int l - 16" using b(4) b(2) b(3) by (rule int_div_pos_eq)
  moreover have "a div 128 \<le> b div 128" using assms(2) by (rule zdiv_mono1) simp
  ultimately have kl: "k \<le> l" by simp
  show ?thesis
  proof (cases "k = l")
    case True
    with assms(2) a(4) b(4) have "w \<le> v" by simp
    then have "w * D \<le> v * D" using D by (simp add: mult_right_mono)
    then have "(w * D + 64) div 128 \<le> (v * D + 64) div 128" by (intro zdiv_mono1) simp_all
    then show ?thesis using True by (simp add: a(5) b(5) D_def)
  next
    case False
    with kl have "k + 1 \<le> l" by simp
    then have t: "squash_t ! (k + 1) \<le> squash_t ! l" using b(1) by (intro squash_t_mono) simp_all
    have "w * D \<le> 127 * D" using a(3) D by (intro mult_right_mono) simp_all
    with div128(1) [of "w * D + 64"] D have "(w * D + 64) div 128 \<le> D" by linarith
    then have 1: "squash a \<le> squash_t ! (k + 1)" by (simp add: a(5) D_def)
    have "0 \<le> v * E" using b(2) E by simp
    with div128(2) [of "v * E + 64"] have "0 \<le> (v * E + 64) div 128" by linarith
    then have 2: "squash_t ! l \<le> squash b" by (simp add: b(5) E_def)
    from 1 t 2 show ?thesis by linarith
  qed
qed

lemma squash_step:
  assumes "- 2047 \<le> d" "d < 2047"
  shows "squash (d + 1) \<le> squash d + 4"
proof -
  from assms have ra: "- 2047 \<le> d" "d \<le> 2047" and rb: "- 2047 \<le> d + 1" "d + 1 \<le> 2047"
    by simp_all
  from ra obtain k w where a: "k < 32" "0 \<le> w" "w < 128" "d = 128 * (int k - 16) + w"
    "squash d = squash_t ! k + (w * (squash_t ! (k + 1) - squash_t ! k) + 64) div 128"
    by (rule squash_seg)
  from rb obtain l v where b: "l < 32" "0 \<le> v" "v < 128" "d + 1 = 128 * (int l - 16) + v"
    "squash (d + 1) = squash_t ! l + (v * (squash_t ! (l + 1) - squash_t ! l) + 64) div 128"
    by (rule squash_seg)
  define D where "D = squash_t ! (k + 1) - squash_t ! k"
  have D: "1 \<le> D" "D \<le> 511" unfolding D_def using a(1) by (rule squash_t_diff)+
  have "(l = k \<and> v = w + 1) \<or> (l = k + 1 \<and> v = 0 \<and> w = 127)"
  proof (cases "w < 127")
    case True
    have "d + 1 = 128 * (int k - 16) + (w + 1)" using a(4) by simp
    from seg_unique [OF this _ _ b(4) b(2) b(3)] a(2) True show ?thesis by simp
  next
    case False
    with a(3) have w: "w = 127" by simp
    have "d + 1 = 128 * (int k + 1 - 16) + 0" using a(4) w by simp
    from seg_unique [OF this _ _ b(4) b(2) b(3)] w show ?thesis by simp
  qed
  then consider "l = k" "v = w + 1" | "l = k + 1" "v = 0" "w = 127" by blast
  then show ?thesis
  proof cases
    case 1
    have "(w + 1) * D + 64 = (w * D + 64) + D" by (simp add: algebra_simps)
    with div128(1) [of "(w + 1) * D + 64"] div128(2) [of "w * D + 64"] D
    have "((w + 1) * D + 64) div 128 \<le> (w * D + 64) div 128 + 4" by linarith
    then show ?thesis using 1 by (simp add: a(5) b(5) D_def)
  next
    case 2
    from div128(2) [of "127 * D + 64"] D have "D \<le> (127 * D + 64) div 128 + 4" by linarith
    then show ?thesis using 2 by (simp add: a(5) b(5) D_def)
  qed
qed

lemma squash_plateau:
  assumes "- 2047 \<le> d" "d + 128 \<le> 2047"
  shows "squash d < squash (d + 128)"
proof -
  from assms have ra: "- 2047 \<le> d" "d \<le> 2047" and rb: "- 2047 \<le> d + 128" "d + 128 \<le> 2047"
    by simp_all
  from ra obtain k w where a: "k < 32" "0 \<le> w" "w < 128" "d = 128 * (int k - 16) + w"
    "squash d = squash_t ! k + (w * (squash_t ! (k + 1) - squash_t ! k) + 64) div 128"
    by (rule squash_seg)
  from rb obtain l v where b: "l < 32" "0 \<le> v" "v < 128" "d + 128 = 128 * (int l - 16) + v"
    "squash (d + 128) = squash_t ! l + (v * (squash_t ! (l + 1) - squash_t ! l) + 64) div 128"
    by (rule squash_seg)
  have "d + 128 = 128 * (int k + 1 - 16) + w" using a(4) by simp
  from seg_unique [OF this a(2) a(3) b(4) b(2) b(3)] have lv: "l = k + 1" "v = w" by simp_all
  define D where "D = squash_t ! (k + 1) - squash_t ! k"
  define E where "E = squash_t ! (k + 2) - squash_t ! (k + 1)"
  have D: "1 \<le> D" unfolding D_def using a(1) by (rule squash_t_diff)
  have E: "1 \<le> E" using squash_t_diff(1) [of "k + 1"] b(1) lv by (simp add: E_def)
  have "(w * D + 64) div 128 < D + (w * E + 64) div 128"
  proof (cases "w < 64")
    case True
    then have "w * D \<le> 63 * D" using D by (intro mult_right_mono) simp_all
    with div128(1) [of "w * D + 64"] D have "(w * D + 64) div 128 < D" by linarith
    moreover have "0 \<le> w * E" using a(2) E by simp
    with div128(2) [of "w * E + 64"] have "0 \<le> (w * E + 64) div 128" by linarith
    ultimately show ?thesis by linarith
  next
    case False
    then have "64 * E \<le> w * E" using E by (intro mult_right_mono) simp_all
    with div128(2) [of "w * E + 64"] E have "1 \<le> (w * E + 64) div 128" by linarith
    moreover have "w * D \<le> 127 * D" using a(3) D by (intro mult_right_mono) simp_all
    with div128(1) [of "w * D + 64"] D have "(w * D + 64) div 128 \<le> D" by linarith
    ultimately show ?thesis by linarith
  qed
  then show ?thesis using lv by (simp add: a(5) b(5) D_def E_def)
qed


lemma fold_upto_inv:
  fixes a b :: int
  assumes "a \<le> b + 1" and "I a s"
    and "\<And>x s. a \<le> x \<Longrightarrow> x \<le> b \<Longrightarrow> I x s \<Longrightarrow> I (x + 1) (f x s)"
  shows "I (b + 1) (fold f [a..b] s)"
proof -
  have "c \<le> b \<Longrightarrow> I (c + 1) (fold f [a..c] s)" if "a - 1 \<le> c" for c
    using that
  proof (induction c rule: int_ge_induct)
    case base
    show ?case using assms(2) by simp
  next
    case (step c)
    have "[a..c + 1] = [a..c] @ [c + 1]" using step.hyps by (simp add: upto_rec2)
    moreover have "I (c + 1) (fold f [a..c] s)" using step by simp
    ultimately show ?case using step.hyps step.prems assms(3) [of "c + 1" "fold f [a..c] s"]
      by simp
  qed
  from this [of b] assms(1) show ?thesis by simp
qed

lemma Stretch_fill:
  fixes t :: "nat \<Rightarrow> int"
  assumes "0 \<le> pi"
  shows "fold (\<lambda>j t. t(nat j := x)) [pi..i] t k = (if pi \<le> int k \<and> int k \<le> i then x else t k)"
proof (cases "pi \<le> i + 1")
  case False
  then show ?thesis by simp
next
  case True
  have "\<forall>k. fold (\<lambda>j t. t(nat j := x)) [pi..i] t k
            = (if pi \<le> int k \<and> int k < i + 1 then x else t k)"
  proof (rule fold_upto_inv [where I = "\<lambda>j u. \<forall>k. u k = (if pi \<le> int k \<and> int k < j then x else t k)"])
    show "pi \<le> i + 1" by (rule True)
    show "\<forall>k. t k = (if pi \<le> int k \<and> int k < pi then x else t k)" by simp
    show "\<forall>k. (u(nat j := x)) k = (if pi \<le> int k \<and> int k < j + 1 then x else t k)"
      if "pi \<le> j" "j \<le> i" "\<forall>k. u k = (if pi \<le> int k \<and> int k < j then x else t k)" for j u
      using that assms by auto
  qed
  then show ?thesis by simp
qed

text \<open>\<open>L\<close> is the least argument from \<open>-2047\<close> on, below \<open>X\<close>, whose squash reaches \<open>p\<close>.\<close>

definition least_arg :: "int \<Rightarrow> int \<Rightarrow> int \<Rightarrow> bool" where
  "least_arg X p L \<longleftrightarrow>
     - 2047 \<le> L \<and> L < X \<and> p \<le> squash L \<and> (\<forall>x. - 2047 \<le> x \<and> x < L \<longrightarrow> squash x < p)"

definition Stretch_inv :: "int \<Rightarrow> (nat \<Rightarrow> int) \<times> int \<Rightarrow> bool" where
  "Stretch_inv X = (\<lambda>(t, pi).
     pi = (if X = - 2047 then 0 else squash (X - 1) + 1)
     \<and> (\<forall>p. 0 \<le> p \<and> p < pi \<longrightarrow> least_arg X p (t (nat p))))"

lemma Stretch_inv_step:
  assumes "- 2047 \<le> x" "x \<le> 2047" "Stretch_inv x s"
  shows "Stretch_inv (x + 1) (Stretch_step x s)"
proof -
  obtain t pi where s: "s = (t, pi)" by (cases s)
  from assms(3) have pi: "pi = (if x = - 2047 then 0 else squash (x - 1) + 1)"
    and old: "\<And>p. 0 \<le> p \<Longrightarrow> p < pi \<Longrightarrow> least_arg x p (t (nat p))"
    by (simp_all add: Stretch_inv_def s)
  have pi0: "0 \<le> pi" using pi squash_bounds [of "x - 1"] by (simp split: if_splits)
  define t' where "t' = fold (\<lambda>j t. t(nat j := x)) [pi..squash x] t"
  have st: "Stretch_step x s = (t', squash x + 1)"
    by (simp add: Stretch_step_def s Let_def t'_def)
  have t': "t' (nat p) = (if pi \<le> p \<and> p \<le> squash x then x else t (nat p))" if "0 \<le> p" for p
    unfolding t'_def using Stretch_fill [OF pi0, of x "squash x" t "nat p"] that by simp
  have below: "squash y < p" if "- 2047 \<le> y" "y < x" "pi \<le> p" for y p
  proof -
    from that have ne: "x \<noteq> - 2047" by simp
    have "squash y \<le> squash (x - 1)" using that assms(2) by (intro squash_mono) simp_all
    with pi ne that(3) show ?thesis by simp
  qed
  have "least_arg (x + 1) p (t' (nat p))" if "0 \<le> p" "p < squash x + 1" for p
  proof (cases "pi \<le> p")
    case True
    with that have "t' (nat p) = x" by (simp add: t')
    then show ?thesis unfolding least_arg_def using assms(1) that True below by simp
  next
    case False
    with that have "t' (nat p) = t (nat p)" by (simp add: t')
    moreover from False that have "least_arg x p (t (nat p))" by (intro old) simp_all
    ultimately show ?thesis by (auto simp: least_arg_def)
  qed
  then show ?thesis using assms(1) by (simp add: Stretch_inv_def st)
qed

lemma squash_2047: "squash 2047 = 4094"
  by (simp add: squash_def squash_t_def)

lemma Stretch_loop:
  "Stretch_inv 2048 (fold Stretch_step [- 2047..2047] (\<lambda>_. 0, 0))"
proof -
  have "Stretch_inv (2047 + 1) (fold Stretch_step [- 2047..2047] (\<lambda>_. 0, 0))"
  proof (rule fold_upto_inv [where I = Stretch_inv])
    show "(- 2047 :: int) \<le> 2047 + 1" by simp
    show "Stretch_inv (- 2047) (\<lambda>_. 0, 0)" by (auto simp: Stretch_inv_def)
    show "Stretch_inv (x + 1) (Stretch_step x s)"
      if "- 2047 \<le> x" "x \<le> 2047" "Stretch_inv x s" for x s
      using that by (rule Stretch_inv_step)
  qed
  moreover have "(2047::int) + 1 = 2048" by simp
  ultimately show ?thesis by (simp only:)
qed

lemma stretch_least:
  assumes "0 \<le> p" "p \<le> 4094"
  shows "least_arg 2048 p (stretch p)"
proof -
  obtain t pi where f: "fold Stretch_step [- 2047..2047] (\<lambda>_. 0, 0) = (t, pi)" by fastforce
  have "Stretch_inv 2048 (t, pi)" using Stretch_loop unfolding f .
  then have "least_arg 2048 p (t (nat p))"
    using assms by (simp add: Stretch_inv_def squash_2047)
  moreover have "nat p \<noteq> 4095" using assms by simp
  then have "stretch p = t (nat p)"
    unfolding stretch_def Stretch_t_def f by simp
  ultimately show ?thesis by simp
qed

lemma stretch_4095: "stretch 4095 = 2047"
proof -
  have "nat 4095 = (4095::nat)" by simp
  then show ?thesis unfolding stretch_def Stretch_t_def by (simp only: fun_upd_same)
qed


lemma squash_le_4094: "- 2047 \<le> d \<Longrightarrow> d \<le> 2047 \<Longrightarrow> squash d \<le> 4094"
  using squash_mono [of d 2047] by (simp add: squash_2047)

lemma stretch_eq:
  assumes "0 \<le> p" "p \<le> 4094" "- 2047 \<le> L" "L \<le> 2047" "p \<le> squash L"
    and "L = - 2047 \<or> squash (L - 1) < p"
  shows "stretch p = L"
proof -
  from stretch_least [OF assms(1,2)]
  have s: "- 2047 \<le> stretch p" "stretch p < 2048" "p \<le> squash (stretch p)"
    and m: "\<And>x. - 2047 \<le> x \<Longrightarrow> x < stretch p \<Longrightarrow> squash x < p"
    by (simp_all add: least_arg_def)
  have "\<not> L < stretch p" using m [of L] assms(3,5) by auto
  moreover have "\<not> stretch p < L"
  proof
    assume a: "stretch p < L"
    then have "L \<noteq> - 2047" using s(1) by simp
    with assms(6) have "squash (L - 1) < p" by simp
    moreover have "squash (stretch p) \<le> squash (L - 1)"
      using s(1) a assms(4) by (intro squash_mono) simp_all
    ultimately show False using s(3) by simp
  qed
  ultimately show ?thesis by simp
qed

text \<open>
  C3 (amended). For every \<open>d\<close> in \<open>[-2047, 2047]\<close>, \<open>stretch (squash d)\<close> lies in
  \<open>[d - 127, d]\<close> and has the squash of \<open>d\<close>: the table holds the least argument of each
  value of squash, and squash is constant over at most 128 arguments in a row.
\<close>

theorem stretch_squash_band:
  assumes "- 2047 \<le> d" and "d \<le> 2047"
  shows "d - 127 \<le> stretch (squash d) \<and> stretch (squash d) \<le> d
         \<and> squash (stretch (squash d)) = squash d"
proof -
  define p where "p = squash d"
  define L where "L = stretch p"
  have p: "0 \<le> p" "p \<le> 4094"
    using squash_bounds [of d] squash_le_4094 [OF assms] by (simp_all add: p_def)
  from stretch_least [OF p]
  have s: "- 2047 \<le> L" "L < 2048" "p \<le> squash L"
    and m: "\<And>x. - 2047 \<le> x \<Longrightarrow> x < L \<Longrightarrow> squash x < p"
    by (simp_all add: least_arg_def L_def)
  have "\<not> d < L" using m [of d] assms(1) by (auto simp: p_def)
  then have le: "L \<le> d" by simp
  have "squash L \<le> squash d" using s(1) le assms(2) by (rule squash_mono)
  with s(3) have eq: "squash L = squash d" by (simp add: p_def)
  have "d - 127 \<le> L"
  proof (rule ccontr)
    assume "\<not> d - 127 \<le> L"
    then have a: "L + 128 \<le> d" by simp
    have "squash L < squash (L + 128)" using s(1) a assms(2) by (intro squash_plateau) simp_all
    moreover have "squash (L + 128) \<le> squash d" using s(1) a assms(2) by (intro squash_mono) simp_all
    ultimately show False using eq by simp
  qed
  with le eq show ?thesis by (simp add: L_def p_def)
qed

lemma squash_vals:
  "squash (- 1857) = 2" "squash (- 1984) = 2" "squash (- 1985) = 1"
  "squash 1984 = 4094" "squash 1983 = 4093"
  "squash 0 = 2047" "squash 1 = 2051" "squash (- 2047) = 1"
  by (simp_all add: squash_def squash_t_def and_127_int drop_bit_eq_div)

theorem stretch_squash_band_witness:
  "(- 2047 :: int) \<le> - 1857 \<and> (- 1857 :: int) \<le> 2047 \<and> stretch (squash (- 1857)) = - 1857 - 127"
proof -
  have "stretch 2 = - 1984" by (rule stretch_eq) (simp_all add: squash_vals)
  then show ?thesis using stretch_squash_band [of "- 1857"] by (simp add: squash_vals)
qed

text \<open>
  The band of width 1 of the claim fails at \<open>d = 2047\<close>: squash is 4094 from 1984 to 2047.
\<close>

theorem stretch_squash_counterexample:
  "stretch (squash 2047) = 1984 \<and> \<not> \<bar>stretch (squash 2047) - 2047\<bar> \<le> 1"
proof -
  have "stretch 4094 = 1984" by (rule stretch_eq) (simp_all add: squash_vals)
  then show ?thesis by (simp add: squash_2047)
qed

text \<open>
  C4 (amended). For every \<open>p\<close> in \<open>[0, 4095]\<close>, \<open>squash (stretch p)\<close> lies in
  \<open>[p - 1, p + 3]\<close>, so \<open>|squash (stretch p) - p| \<le> 3\<close>: it is the least value of squash
  that is at least \<open>p\<close> (4094 for \<open>p = 4095\<close>), and squash grows by at most 4 per step.
\<close>

theorem squash_stretch_band:
  assumes "0 \<le> p" and "p \<le> 4095"
  shows "p - 1 \<le> squash (stretch p) \<and> squash (stretch p) \<le> p + 3
         \<and> \<bar>squash (stretch p) - p\<bar> \<le> 3"
proof (cases "p = 4095")
  case True
  then show ?thesis by (simp add: stretch_4095 squash_2047)
next
  case False
  with assms have p: "0 \<le> p" "p \<le> 4094" by simp_all
  define L where "L = stretch p"
  from stretch_least [OF p]
  have s: "- 2047 \<le> L" "L < 2048" "p \<le> squash L"
    and m: "\<And>x. - 2047 \<le> x \<Longrightarrow> x < L \<Longrightarrow> squash x < p"
    by (simp_all add: least_arg_def L_def)
  have "squash L \<le> p + 3"
  proof (cases "L = - 2047")
    case True
    then show ?thesis using p by (simp add: squash_vals)
  next
    case False
    with s have r: "- 2047 \<le> L - 1" "L - 1 < 2047" by simp_all
    from squash_step [OF r] have "squash L \<le> squash (L - 1) + 4" by simp
    moreover have "squash (L - 1) < p" using r by (intro m) simp_all
    ultimately show ?thesis by simp
  qed
  with s(3) show ?thesis by (simp add: L_def)
qed

theorem squash_stretch_band_witness:
  "(0::int) \<le> 2048 \<and> (2048::int) \<le> 4095 \<and> squash (stretch 2048) = 2048 + 3"
proof -
  have "stretch 2048 = 1" by (rule stretch_eq) (simp_all add: squash_vals)
  then show ?thesis using squash_stretch_band [of 2048] by (simp add: squash_vals)
qed

text \<open>
  The band of width 1 of the claim fails at \<open>p = 2048\<close>: squash jumps from 2047 at 0 to 2051
  at 1.
\<close>

theorem squash_stretch_counterexample:
  "squash (stretch 2048) = 2051 \<and> \<not> \<bar>squash (stretch 2048) - 2048\<bar> \<le> 1"
proof -
  have "stretch 2048 = 1" by (rule stretch_eq) (simp_all add: squash_vals)
  then show ?thesis by (simp add: squash_vals)
qed

end
